theory Spec2Isabelle
  imports Main "HOL-Library.Log_Nat"
begin

section \<open>Data model\<close>

text \<open>
  The storage router (\<^verbatim>\<open>packages/api/src/routers/storage/storage.ts\<close>) works on five
  relational tables (schema \<^verbatim>\<open>db/schema/storage\<close>) and on an S3-compatible blob store.
  A table is a list of rows; \<^verbatim>\<open>findFirst\<close> is \<open>find\<close>, \<^verbatim>\<open>findMany\<close> is
  \<open>filter\<close>, \<^verbatim>\<open>update ... where\<close> is \<open>map\<close> with a guarded row update and
  \<^verbatim>\<open>delete ... where\<close> is \<open>filter\<close> with the negated condition.
  Timestamps are milliseconds (\<^verbatim>\<open>Date.getTime()\<close>), byte sizes and counters are
  integers in the store, and the declared size of an upload is a JavaScript number (a
  rational here). Columns that no operation below reads or writes (sharing flags, download
  counter, created/updated times) are left out of the rows.
\<close>

datatype error =
    TOO_MANY_REQUESTS
  | PAYLOAD_TOO_LARGE
  | NOT_FOUND
  | PRECONDITION_FAILED
  | BAD_REQUEST
  | INTERNAL_SERVER_ERROR

record file_row =
  file_hash :: string
  file_size :: int
  file_path :: string
  file_refCount :: int

record folder_row =
  folder_id :: string
  folder_name :: string
  folder_userId :: string
  folder_parentId :: "string option"
  folder_deletedAt :: "int option"

record asset_row =
  asset_id :: string
  asset_name :: string
  asset_userId :: string
  asset_folderId :: "string option"
  asset_fileHash :: string
  asset_deletedAt :: "int option"

record quota_row =
  quota_userId :: string
  quota_storageUsed :: int
  quota_storageLimit :: int
  quota_rateLimit :: int

record window_row =
  window_id :: string
  window_userId :: string
  window_windowStart :: int
  window_requestCount :: int

text \<open>
  The state: the five tables, the keys present in the blob store, the log of the keys
  handed to \<^verbatim>\<open>s3.file(key).delete()\<close> (most recent first), and the log of the folder
  identifiers that the loops of \<^verbatim>\<open>permanentlyDeleteFolder\<close> and \<^verbatim>\<open>emptyTrash\<close> handed to
  \<^verbatim>\<open>tx.delete(folders)\<close> (in the order of the statements, oldest first). Calls to the blob
  store themselves do not fail. Identifiers are UUIDs and hashes are 64 characters long, so
  the tests \<^verbatim>\<open>if (folder.parentId)\<close> of the source only separate null from a value.
\<close>

record state =
  files :: "file_row list"
  userAssets :: "asset_row list"
  folders :: "folder_row list"
  userQuotas :: "quota_row list"
  rateLimitWindows :: "window_row list"
  blobs :: "string list"
  s3Deleted :: "string list"
  folderDeletes :: "string list"

definition DEFAULT_STORAGE_LIMIT :: int where
  "DEFAULT_STORAGE_LIMIT = 1 * 1024 * 1024 * 1024"

definition DEFAULT_RATE_LIMIT :: int where
  "DEFAULT_RATE_LIMIT = 2"

definition RATE_LIMIT_WINDOW_MS :: int where
  "RATE_LIMIT_WINDOW_MS = 1000"

text \<open>
  \<^verbatim>\<open>db.transaction\<close>: when the body throws, the tables go back to their value at the
  start (and with them the log of folder deletes); what the body already did to the blob
  store stays done.
\<close>

definition transaction ::
  "(state \<Rightarrow> (error + 'a) \<times> state) \<Rightarrow> state \<Rightarrow> (error + 'a) \<times> state" where
  "transaction body s =
     (case body s of
        (Inl e, t) \<Rightarrow> (Inl e, s\<lparr>blobs := blobs t, s3Deleted := s3Deleted t\<rparr>)
      | (Inr x, t) \<Rightarrow> (Inr x, t))"

section \<open>JavaScript numbers and bigint columns\<close>

text \<open>
  The byte columns (\<^verbatim>\<open>files.size\<close>, \<^verbatim>\<open>storage_used\<close>, \<^verbatim>\<open>storage_limit\<close>) are of type
  \<^verbatim>\<open>bigint\<close> and are read in mode \<^verbatim>\<open>"number"\<close>; the declared size of an upload is a
  number of the request. A JavaScript number is a double: \<open>toDouble\<close> rounds a rational to
  the nearest number with a significand of 53 bits, ties to the even significand (the
  numbers that occur here are far from both ends of the range of exponents).
  \<open>exponentOf x\<close> is the integer part of the binary logarithm of \<open>\<bar>x\<bar>\<close>. \<open>toNumber\<close> is
  the number read from a \<^verbatim>\<open>bigint\<close> column, and the sum of two numbers is the rounded
  sum. A declared size \<open>sz\<close> that a request can carry is itself a number
  (\<open>toDouble sz = sz\<close>); the procedures are defined on every rational.
\<close>

definition roundHalfEven :: "rat \<Rightarrow> int" where
  "roundHalfEven x =
     (let f = \<lfloor>x\<rfloor>; d = x - of_int f
      in if d < 1 / 2 then f else if 1 / 2 < d then f + 1 else if even f then f else f + 1)"

definition scale2 :: "rat \<Rightarrow> int \<Rightarrow> rat" where
  "scale2 x e = (if 0 \<le> e then x * 2 ^ nat e else x / 2 ^ nat (- e))"

definition exponentOf :: "rat \<Rightarrow> int" where
  "exponentOf x =
     (if 1 \<le> \<bar>x\<bar> then bitlen \<lfloor>\<bar>x\<bar>\<rfloor> - 1 else - bitlen (\<lceil>1 / \<bar>x\<bar>\<rceil> - 1))"

definition toDouble :: "rat \<Rightarrow> rat" where
  "toDouble x =
     (if x = 0 then 0
      else (let e = exponentOf x - 52
            in scale2 (of_int (roundHalfEven (scale2 x (- e)))) e))"

definition toNumber :: "int \<Rightarrow> rat" where
  "toNumber n = toDouble (of_int n)"

text \<open>
  A number that goes to the store as a parameter of a statement travels as the text that
  JavaScript prints for it. An integer of magnitude up to \<open>2 ^ 53\<close> is printed with all
  its digits. Above, the text is the shortest decimal that reads back as the same number,
  filled up with zeros: \<open>shortestDecimal j x\<close> tries the multiples of \<open>10 ^ j\<close> next to
  \<open>x\<close>, then those of \<open>10 ^ (j - 1)\<close>, and so on. A number with a fraction is printed
  with a decimal point. In the position of a \<^verbatim>\<open>bigint\<close> the store accepts only the text
  of an integer from \<open>BIGINT_MIN\<close> to \<open>BIGINT_MAX\<close>: \<open>bigintOfNumber x\<close> is the integer
  that the store reads, and \<open>None\<close> when it refuses the text.
\<close>

definition BIGINT_MAX :: int where
  "BIGINT_MAX = 2 ^ 63 - 1"

definition BIGINT_MIN :: int where
  "BIGINT_MIN = - (2 ^ 63)"

fun shortestDecimal :: "nat \<Rightarrow> int \<Rightarrow> int" where
  "shortestDecimal 0 x = x"
| "shortestDecimal (Suc j) x =
     (let step = 10 ^ Suc j;
          lo = (x div step) * step;
          hi = lo + step;
          okLo = (toNumber lo = of_int x);
          okHi = (toNumber hi = of_int x)
      in if okLo \<and> okHi then
           (if x - lo < hi - x then lo
            else if hi - x < x - lo then hi
            else if even (x div step) then lo else hi)
         else if okLo then lo
         else if okHi then hi
         else shortestDecimal j x)"

definition printedInteger :: "int \<Rightarrow> int" where
  "printedInteger x =
     (if \<bar>x\<bar> \<le> 2 ^ 53 then x else sgn x * shortestDecimal 21 \<bar>x\<bar>)"

definition bigintOfNumber :: "rat \<Rightarrow> int option" where
  "bigintOfNumber x =
     (if of_int \<lfloor>x\<rfloor> = x \<and> BIGINT_MIN \<le> printedInteger \<lfloor>x\<rfloor>
           \<and> printedInteger \<lfloor>x\<rfloor> \<le> BIGINT_MAX
      then Some (printedInteger \<lfloor>x\<rfloor>) else None)"

section \<open>Admission control\<close>

text \<open>
  \<^verbatim>\<open>checkRateLimit\<close>. \<open>now\<close> is the clock reading, \<open>newId\<close> the identifier that
  \<^verbatim>\<open>crypto.randomUUID()\<close> gives to an inserted window row; inserting under an identifier
  that is already a primary key is refused by the store.
\<close>

definition userRateLimit :: "state \<Rightarrow> string \<Rightarrow> int" where
  "userRateLimit s userId =
     (case find (\<lambda>q. quota_userId q = userId) (userQuotas s) of
        None \<Rightarrow> DEFAULT_RATE_LIMIT
      | Some quota \<Rightarrow> quota_rateLimit quota)"

definition checkRateLimit :: "string \<Rightarrow> int \<Rightarrow> string \<Rightarrow> state \<Rightarrow> (error + unit) \<times> state" where
  "checkRateLimit userId now newId s =
     (let windowStart = (now div RATE_LIMIT_WINDOW_MS) * RATE_LIMIT_WINDOW_MS;
          rateLimit = userRateLimit s userId;
          currentWindow =
            find (\<lambda>w. window_userId w = userId \<and> window_windowStart w = windowStart)
              (rateLimitWindows s)
      in case currentWindow of
           Some w \<Rightarrow>
             if window_requestCount w \<ge> rateLimit then (Inl TOO_MANY_REQUESTS, s)
             else (Inr (),
               s\<lparr>rateLimitWindows :=
                   map (\<lambda>r. if window_id r = window_id w
                             then r\<lparr>window_requestCount := window_requestCount r + 1\<rparr>
                             else r)
                     (rateLimitWindows s)\<rparr>)
         | None \<Rightarrow>
             if newId \<in> window_id ` set (rateLimitWindows s) then (Inl INTERNAL_SERVER_ERROR, s)
             else
               (let inserted = rateLimitWindows s @
                      [\<lparr>window_id = newId, window_userId = userId,
                        window_windowStart = windowStart, window_requestCount = 1\<rparr>];
                    cutoff = now - 60000
                in (Inr (),
                  s\<lparr>rateLimitWindows :=
                      filter (\<lambda>r. \<not> (window_userId r = userId \<and> window_windowStart r < cutoff))
                        inserted\<rparr>)))"

text \<open>The request count recorded for a user and a window start (0 when there is no row).\<close>

definition windowCount :: "state \<Rightarrow> string \<Rightarrow> int \<Rightarrow> int" where
  "windowCount s userId windowStart =
     (case find (\<lambda>w. window_userId w = userId \<and> window_windowStart w = windowStart)
             (rateLimitWindows s) of
        None \<Rightarrow> 0
      | Some w \<Rightarrow> window_requestCount w)"

text \<open>
  \<^verbatim>\<open>rateLimitedProcedure\<close>: the middleware runs \<^verbatim>\<open>checkRateLimit\<close> and then the
  handler; the window update is not part of any transaction of the handler. Every
  procedure below is given as its handler, a function of the state that the middleware
  hands over once it has admitted the request.
\<close>

definition rateLimitedProcedure ::
  "string \<Rightarrow> int \<Rightarrow> string \<Rightarrow> (state \<Rightarrow> (error + 'a) \<times> state) \<Rightarrow> state \<Rightarrow> (error + 'a) \<times> state" where
  "rateLimitedProcedure userId now newId handler s =
     (case checkRateLimit userId now newId s of
        (Inl e, s1) \<Rightarrow> (Inl e, s1)
      | (Inr _, s1) \<Rightarrow> handler s1)"

definition defaultQuota :: "string \<Rightarrow> quota_row" where
  "defaultQuota userId =
     \<lparr>quota_userId = userId, quota_storageUsed = 0,
      quota_storageLimit = DEFAULT_STORAGE_LIMIT, quota_rateLimit = DEFAULT_RATE_LIMIT\<rparr>"

text \<open>
  \<^verbatim>\<open>checkStorageQuota\<close>. The test \<^verbatim>\<open>quota.storageUsed + additionalBytes > quota.storageLimit\<close>
  is on numbers.
\<close>

definition checkStorageQuota :: "string \<Rightarrow> rat \<Rightarrow> state \<Rightarrow> (error + unit) \<times> state" where
  "checkStorageQuota userId additionalBytes s =
     (let found = find (\<lambda>q. quota_userId q = userId) (userQuotas s);
          s1 = (case found of
                  None \<Rightarrow> s\<lparr>userQuotas := userQuotas s @ [defaultQuota userId]\<rparr>
                | Some _ \<Rightarrow> s);
          quota = (case found of None \<Rightarrow> defaultQuota userId | Some q \<Rightarrow> q)
      in if toDouble (toNumber (quota_storageUsed quota) + additionalBytes)
              > toNumber (quota_storageLimit quota)
         then (Inl PAYLOAD_TOO_LARGE, s1)
         else (Inr (), s1))"

text \<open>
  \<^verbatim>\<open>updateStorageUsage\<close>: insert, or on conflict \<^verbatim>\<open>GREATEST(0, storageUsed + delta)\<close>.
  This is the statement as the store runs it once it has read \<open>deltaBytes\<close> as a
  \<^verbatim>\<open>bigint\<close>; the procedures that release bytes call it with minus a size, or a sum of
  sizes, read from the files table.
\<close>

definition updateStorageUsage :: "string \<Rightarrow> int \<Rightarrow> state \<Rightarrow> state" where
  "updateStorageUsage userId deltaBytes s =
     (if list_ex (\<lambda>q. quota_userId q = userId) (userQuotas s)
      then s\<lparr>userQuotas :=
               map (\<lambda>q. if quota_userId q = userId
                         then q\<lparr>quota_storageUsed := max 0 (quota_storageUsed q + deltaBytes)\<rparr>
                         else q)
                 (userQuotas s)\<rparr>
      else s\<lparr>userQuotas := userQuotas s @
               [(defaultQuota userId)\<lparr>quota_storageUsed := max 0 deltaBytes\<rparr>]\<rparr>)"

text \<open>The bytes charged to a user, as \<^verbatim>\<open>getStats\<close> reads them (0 without a row).\<close>

definition storageUsed :: "state \<Rightarrow> string \<Rightarrow> int" where
  "storageUsed s userId =
     (case find (\<lambda>q. quota_userId q = userId) (userQuotas s) of
        None \<Rightarrow> 0
      | Some quota \<Rightarrow> quota_storageUsed quota)"

text \<open>
  \<^verbatim>\<open>updateStorageUsage(userId, input.size)\<close>, the call of the two upload procedures. The
  declared size reaches the store as the text of a number in the position of a
  \<^verbatim>\<open>bigint\<close>. The store refuses the statement when it cannot read that text as a
  \<^verbatim>\<open>bigint\<close>, and when \<^verbatim>\<open>storageUsed + delta\<close> leaves the range of \<^verbatim>\<open>bigint\<close>; the
  caller gets an internal error, and the statement has changed nothing.
\<close>

definition updateStorageUsageChecked :: "string \<Rightarrow> rat \<Rightarrow> state \<Rightarrow> (error + unit) \<times> state" where
  "updateStorageUsageChecked userId deltaBytes s =
     (case bigintOfNumber deltaBytes of
        None \<Rightarrow> (Inl INTERNAL_SERVER_ERROR, s)
      | Some delta \<Rightarrow>
          if storageUsed s userId + delta < BIGINT_MIN \<or> BIGINT_MAX < storageUsed s userId + delta
          then (Inl INTERNAL_SERVER_ERROR, s)
          else (Inr (), updateStorageUsage userId delta s))"

section \<open>Upload and deduplication\<close>

text \<open>
  The input of the two upload procedures, as their parser (\<^verbatim>\<open>z.object\<close>) accepts it: a
  filename of 1 to 255 characters, a positive number as size, a hash of 64 characters
  and, when given, a folder identifier of the form of a UUID (versions 1 to 8, or the nil
  or the max UUID). The parser runs behind the rate limit and in front of the resolver; an
  input that it refuses is answered with \<^verbatim>\<open>BAD_REQUEST\<close>.
\<close>

definition hexDigit :: "char \<Rightarrow> bool" where
  "hexDigit c = (c \<in> set ''0123456789abcdefABCDEF'')"

definition isUuid :: "string \<Rightarrow> bool" where
  "isUuid x =
     (x = ''00000000-0000-0000-0000-000000000000''
      \<or> x = ''ffffffff-ffff-ffff-ffff-ffffffffffff''
      \<or> (length x = 36
          \<and> list_all hexDigit (take 8 x) \<and> x ! 8 = CHR ''-''
          \<and> list_all hexDigit (take 4 (drop 9 x)) \<and> x ! 13 = CHR ''-''
          \<and> x ! 14 \<in> set ''12345678'' \<and> list_all hexDigit (take 3 (drop 15 x))
          \<and> x ! 18 = CHR ''-''
          \<and> x ! 19 \<in> set ''89abAB'' \<and> list_all hexDigit (take 3 (drop 20 x))
          \<and> x ! 23 = CHR ''-''
          \<and> list_all hexDigit (drop 24 x)))"

definition uploadInput :: "string \<Rightarrow> rat \<Rightarrow> string \<Rightarrow> string option \<Rightarrow> bool" where
  "uploadInput filename sz hash folderId =
     (1 \<le> length filename \<and> length filename \<le> 255 \<and> 0 < sz \<and> length hash = 64
      \<and> (case folderId of None \<Rightarrow> True | Some fid \<Rightarrow> isUuid fid))"

text \<open>
  Inserting an asset row. The store refuses it when the identifier is already a primary
  key, when \<^verbatim>\<open>folder_id\<close> names no folder row, or when \<^verbatim>\<open>file_hash\<close> names no files
  row (the foreign keys of \<^verbatim>\<open>user_assets\<close>); the error surfaces as an internal error.
\<close>

definition insertAsset :: "asset_row \<Rightarrow> state \<Rightarrow> (error + unit) \<times> state" where
  "insertAsset row t =
     (if asset_id row \<in> asset_id ` set (userAssets t) then (Inl INTERNAL_SERVER_ERROR, t)
      else if (case asset_folderId row of
                 None \<Rightarrow> False
               | Some fid \<Rightarrow> fid \<notin> folder_id ` set (folders t))
        then (Inl INTERNAL_SERVER_ERROR, t)
      else if asset_fileHash row \<notin> file_hash ` set (files t) then (Inl INTERNAL_SERVER_ERROR, t)
      else (Inr (), t\<lparr>userAssets := userAssets t @ [row]\<rparr>))"

definition incrementRefCount :: "string \<Rightarrow> state \<Rightarrow> state" where
  "incrementRefCount hash t =
     t\<lparr>files := map (\<lambda>f. if file_hash f = hash
                           then f\<lparr>file_refCount := file_refCount f + 1\<rparr> else f)
                  (files t)\<rparr>"

text \<open>The upsert of \<^verbatim>\<open>confirmUpload\<close>: insert at reference count 1, on conflict add 1.\<close>

definition upsertFile :: "string \<Rightarrow> int \<Rightarrow> state \<Rightarrow> state" where
  "upsertFile hash sz t =
     (if hash \<in> file_hash ` set (files t) then incrementRefCount hash t
      else t\<lparr>files := files t @
               [\<lparr>file_hash = hash, file_size = sz, file_path = hash, file_refCount = 1\<rparr>]\<rparr>)"

datatype upload_reply = Deduplicated | Presigned string

text \<open>
  \<^verbatim>\<open>getUploadPresignedUrl\<close> behind the rate limit: the parser of the input, then the
  resolver. \<open>newId\<close> is the identifier of the asset row it may insert. The usage is
  updated after the transaction has committed.
\<close>

definition getUploadPresignedUrl ::
  "string \<Rightarrow> string \<Rightarrow> string \<Rightarrow> rat \<Rightarrow> string \<Rightarrow> string option \<Rightarrow> state
     \<Rightarrow> (error + upload_reply) \<times> state" where
  "getUploadPresignedUrl userId newId filename sz hash folderId s =
     (if \<not> uploadInput filename sz hash folderId then (Inl BAD_REQUEST, s)
      else
        (case checkStorageQuota userId sz s of
           (Inl e, s1) \<Rightarrow> (Inl e, s1)
         | (Inr _, s1) \<Rightarrow>
             (case find (\<lambda>f. file_hash f = hash) (files s1) of
                Some existingFile \<Rightarrow>
                  (case transaction
                          (\<lambda>t. case insertAsset
                                      \<lparr>asset_id = newId, asset_name = filename,
                                       asset_userId = userId, asset_folderId = folderId,
                                       asset_fileHash = file_hash existingFile,
                                       asset_deletedAt = None\<rparr> t of
                                  (Inl e, t1) \<Rightarrow> (Inl e, t1)
                                | (Inr _, t1) \<Rightarrow>
                                    (Inr (), incrementRefCount (file_hash existingFile) t1))
                          s1 of
                     (Inl e, s2) \<Rightarrow> (Inl e, s2)
                   | (Inr _, s2) \<Rightarrow>
                       (case updateStorageUsageChecked userId sz s2 of
                          (Inl e, s3) \<Rightarrow> (Inl e, s3)
                        | (Inr _, s3) \<Rightarrow> (Inr Deduplicated, s3)))
              | None \<Rightarrow> (Inr (Presigned hash), s1))))"

text \<open>
  \<^verbatim>\<open>confirmUpload\<close> behind the rate limit. The upsert of the files row carries the
  declared size as a \<^verbatim>\<open>bigint\<close> parameter, which the store reads before it looks for a
  conflict.
\<close>

definition confirmUpload ::
  "string \<Rightarrow> string \<Rightarrow> string \<Rightarrow> rat \<Rightarrow> string \<Rightarrow> string option \<Rightarrow> state
     \<Rightarrow> (error + unit) \<times> state" where
  "confirmUpload userId newId filename sz hash folderId s =
     (if \<not> uploadInput filename sz hash folderId then (Inl BAD_REQUEST, s)
      else if hash \<notin> set (blobs s) then (Inl NOT_FOUND, s)
      else
        (case transaction
                (\<lambda>t. case bigintOfNumber sz of
                       None \<Rightarrow> (Inl INTERNAL_SERVER_ERROR, t)
                     | Some bytes \<Rightarrow>
                         insertAsset
                           \<lparr>asset_id = newId, asset_name = filename,
                            asset_userId = userId, asset_folderId = folderId,
                            asset_fileHash = hash, asset_deletedAt = None\<rparr>
                           (upsertFile hash bytes t))
                s of
           (Inl e, s1) \<Rightarrow> (Inl e, s1)
         | (Inr _, s1) \<Rightarrow> updateStorageUsageChecked userId sz s1))"

section \<open>Deleting assets\<close>

text \<open>
  The block that \<^verbatim>\<open>deleteAsset\<close>, \<^verbatim>\<open>permanentlyDelete\<close>, \<^verbatim>\<open>permanentlyDeleteFolder\<close>
  and \<^verbatim>\<open>emptyTrash\<close> each run inside their transaction for one asset: delete the asset
  row, subtract 1 from the reference count, and when the returned row has a count
  \<open>\<le> 0\<close> delete the blob and then the files row. The files row cannot be deleted while an
  asset row still references it (\<^verbatim>\<open>onDelete: "restrict"\<close>).
\<close>

definition releaseAsset :: "string \<Rightarrow> string \<Rightarrow> state \<Rightarrow> (error + unit) \<times> state" where
  "releaseAsset assetId fileHash t =
     (let t1 = t\<lparr>userAssets := filter (\<lambda>a. asset_id a \<noteq> assetId) (userAssets t)\<rparr>;
          t2 = t1\<lparr>files := map (\<lambda>f. if file_hash f = fileHash
                                      then f\<lparr>file_refCount := file_refCount f - 1\<rparr> else f)
                             (files t1)\<rparr>
      in case find (\<lambda>f. file_hash f = fileHash) (files t2) of
           None \<Rightarrow> (Inr (), t2)
         | Some updatedFile \<Rightarrow>
             if file_refCount updatedFile \<le> 0 then
               (let t3 = t2\<lparr>blobs := filter (\<lambda>k. k \<noteq> file_path updatedFile) (blobs t2),
                           s3Deleted := file_path updatedFile # s3Deleted t2\<rparr>
                in if fileHash \<in> asset_fileHash ` set (userAssets t3)
                   then (Inl INTERNAL_SERVER_ERROR, t3)
                   else (Inr (), t3\<lparr>files := filter (\<lambda>f. file_hash f \<noteq> fileHash) (files t3)\<rparr>))
             else (Inr (), t2))"

text \<open>
  \<^verbatim>\<open>deleteAsset\<close> and \<^verbatim>\<open>permanentlyDelete\<close>. The asset is read together with its
  files row; without one, reading \<^verbatim>\<open>asset.file.size\<close> throws.
\<close>

definition deleteAsset :: "string \<Rightarrow> string \<Rightarrow> state \<Rightarrow> (error + unit) \<times> state" where
  "deleteAsset userId assetId s =
     (case find (\<lambda>a. asset_id a = assetId \<and> asset_userId a = userId) (userAssets s) of
        None \<Rightarrow> (Inl NOT_FOUND, s)
      | Some asset \<Rightarrow>
          (case find (\<lambda>f. file_hash f = asset_fileHash asset) (files s) of
             None \<Rightarrow> (Inl INTERNAL_SERVER_ERROR, s)
           | Some file \<Rightarrow>
               (case transaction (releaseAsset assetId (asset_fileHash asset)) s of
                  (Inl e, s1) \<Rightarrow> (Inl e, s1)
                | (Inr _, s1) \<Rightarrow> (Inr (), updateStorageUsage userId (- file_size file) s1))))"

definition permanentlyDelete :: "string \<Rightarrow> string \<Rightarrow> state \<Rightarrow> (error + unit) \<times> state" where
  "permanentlyDelete userId assetId s =
     (case find (\<lambda>a. asset_id a = assetId \<and> asset_userId a = userId \<and> asset_deletedAt a \<noteq> None)
             (userAssets s) of
        None \<Rightarrow> (Inl NOT_FOUND, s)
      | Some asset \<Rightarrow>
          (case find (\<lambda>f. file_hash f = asset_fileHash asset) (files s) of
             None \<Rightarrow> (Inl INTERNAL_SERVER_ERROR, s)
           | Some file \<Rightarrow>
               (case transaction (releaseAsset assetId (asset_fileHash asset)) s of
                  (Inl e, s1) \<Rightarrow> (Inl e, s1)
                | (Inr _, s1) \<Rightarrow> (Inr (), updateStorageUsage userId (- file_size file) s1))))"

section \<open>Trash of single assets\<close>

definition moveToTrash :: "string \<Rightarrow> string \<Rightarrow> int \<Rightarrow> state \<Rightarrow> (error + unit) \<times> state" where
  "moveToTrash userId assetId now s =
     (let cond = (\<lambda>a. asset_id a = assetId \<and> asset_userId a = userId \<and> asset_deletedAt a = None);
          updated = filter cond (userAssets s);
          s1 = s\<lparr>userAssets :=
                   map (\<lambda>a. if cond a then a\<lparr>asset_deletedAt := Some now\<rparr> else a) (userAssets s)\<rparr>
      in case updated of
           [] \<Rightarrow> (Inl NOT_FOUND, s1)
         | _ # _ \<Rightarrow> (Inr (), s1))"

definition restoreFromTrash :: "string \<Rightarrow> string \<Rightarrow> state \<Rightarrow> (error + unit) \<times> state" where
  "restoreFromTrash userId assetId s =
     (let cond = (\<lambda>a. asset_id a = assetId \<and> asset_userId a = userId \<and> asset_deletedAt a \<noteq> None);
          updated = filter cond (userAssets s);
          s1 = s\<lparr>userAssets :=
                   map (\<lambda>a. if cond a then a\<lparr>asset_deletedAt := None\<rparr> else a) (userAssets s)\<rparr>
      in case updated of
           [] \<Rightarrow> (Inl NOT_FOUND, s1)
         | _ # _ \<Rightarrow> (Inr (), s1))"

section \<open>Folders\<close>

text \<open>
  Deleting a folders row sets \<^verbatim>\<open>folder_id\<close> to null in the asset rows that reference it
  (\<^verbatim>\<open>onDelete: "set null"\<close>); \<^verbatim>\<open>parent_id\<close> has no foreign key.
\<close>

definition deleteFolderRow :: "string \<Rightarrow> state \<Rightarrow> state" where
  "deleteFolderRow folderId t =
     t\<lparr>folders := filter (\<lambda>f. folder_id f \<noteq> folderId) (folders t),
       userAssets := map (\<lambda>a. if asset_folderId a = Some folderId
                                then a\<lparr>asset_folderId := None\<rparr> else a)
                       (userAssets t)\<rparr>"

text \<open>
  The delete statement inside the loops of \<^verbatim>\<open>permanentlyDeleteFolder\<close> and
  \<^verbatim>\<open>emptyTrash\<close>; the identifier goes to the end of the log.
\<close>

definition purgeFolderRow :: "string \<Rightarrow> state \<Rightarrow> state" where
  "purgeFolderRow folderId t =
     (deleteFolderRow folderId t)\<lparr>folderDeletes := folderDeletes t @ [folderId]\<rparr>"

text \<open>\<^verbatim>\<open>deleteFolder\<close>: the strict delete of a folder that must be empty.\<close>

definition deleteFolder :: "string \<Rightarrow> string \<Rightarrow> state \<Rightarrow> (error + unit) \<times> state" where
  "deleteFolder userId folderId s =
     (case find (\<lambda>f. folder_id f = folderId \<and> folder_userId f = userId) (folders s) of
        None \<Rightarrow> (Inl NOT_FOUND, s)
      | Some folder \<Rightarrow>
          (let hasFiles = find (\<lambda>a. asset_folderId a = Some folderId) (userAssets s);
               hasSubfolders = find (\<lambda>f. folder_parentId f = Some folderId) (folders s)
           in if hasFiles \<noteq> None \<or> hasSubfolders \<noteq> None
              then (Inl PRECONDITION_FAILED, s)
              else (Inr (), deleteFolderRow folderId s)))"

text \<open>
  The three recursive collectors (\<^verbatim>\<open>collectFolderIds\<close>, \<^verbatim>\<open>collectTrashedFolderIds\<close>,
  \<^verbatim>\<open>collectAllFolderIds\<close>) differ only in the condition on the child rows, here \<open>keep\<close>.
  The source recurses without a bound; the first argument bounds the depth of the
  recursion, and \<open>None\<close> says that the bound was reached.
\<close>

fun collectSubtree ::
  "nat \<Rightarrow> (folder_row \<Rightarrow> bool) \<Rightarrow> folder_row list \<Rightarrow> string \<Rightarrow> string list option" where
  "collectSubtree 0 keep fs folderId = None"
| "collectSubtree (Suc n) keep fs folderId =
     (let subfolders = filter (\<lambda>f. folder_parentId f = Some folderId \<and> keep f) fs
      in map_option (\<lambda>subIds. folderId # concat subIds)
           (those (map (\<lambda>subfolder. collectSubtree n keep fs (folder_id subfolder)) subfolders)))"

definition collectFolderIds :: "nat \<Rightarrow> folder_row list \<Rightarrow> string \<Rightarrow> string \<Rightarrow> string list option" where
  "collectFolderIds n fs userId folderId =
     collectSubtree n (\<lambda>f. folder_userId f = userId \<and> folder_deletedAt f = None) fs folderId"

definition collectTrashedFolderIds ::
  "nat \<Rightarrow> folder_row list \<Rightarrow> string \<Rightarrow> string \<Rightarrow> string list option" where
  "collectTrashedFolderIds n fs userId folderId =
     collectSubtree n (\<lambda>f. folder_userId f = userId \<and> folder_deletedAt f \<noteq> None) fs folderId"

definition collectAllFolderIds ::
  "nat \<Rightarrow> folder_row list \<Rightarrow> string \<Rightarrow> string \<Rightarrow> string list option" where
  "collectAllFolderIds n fs userId folderId =
     collectSubtree n (\<lambda>f. folder_userId f = userId) fs folderId"

definition inFolders :: "string list \<Rightarrow> asset_row \<Rightarrow> bool" where
  "inFolders folderIds a =
     (case asset_folderId a of None \<Rightarrow> False | Some fid \<Rightarrow> fid \<in> set folderIds)"

definition setFolderDeletedAt :: "int option \<Rightarrow> string \<Rightarrow> folder_row list \<Rightarrow> folder_row list" where
  "setFolderDeletedAt v folderId fs =
     map (\<lambda>f. if folder_id f = folderId then f\<lparr>folder_deletedAt := v\<rparr> else f) fs"

text \<open>\<^verbatim>\<open>moveFolderToTrash\<close>; the result is the number of folders trashed.\<close>

definition moveFolderToTrash ::
  "nat \<Rightarrow> string \<Rightarrow> string \<Rightarrow> int \<Rightarrow> state \<Rightarrow> ((error + nat) \<times> state) option" where
  "moveFolderToTrash fuel userId folderId now s =
     (case find (\<lambda>f. folder_id f = folderId \<and> folder_userId f = userId \<and> folder_deletedAt f = None)
             (folders s) of
        None \<Rightarrow> Some (Inl NOT_FOUND, s)
      | Some folder \<Rightarrow>
          (case collectFolderIds fuel (folders s) userId folderId of
             None \<Rightarrow> None
           | Some folderIds \<Rightarrow>
               Some (Inr (length folderIds),
                 s\<lparr>userAssets :=
                     map (\<lambda>a. if asset_userId a = userId \<and> asset_deletedAt a = None
                                  \<and> inFolders folderIds a
                               then a\<lparr>asset_deletedAt := Some now\<rparr> else a)
                       (userAssets s),
                   folders := fold (setFolderDeletedAt (Some now)) folderIds (folders s)\<rparr>)))"

text \<open>\<^verbatim>\<open>restoreFolderFromTrash\<close>; the result is the number of folders restored.\<close>

definition restoreFolderFromTrash ::
  "nat \<Rightarrow> string \<Rightarrow> string \<Rightarrow> state \<Rightarrow> ((error + nat) \<times> state) option" where
  "restoreFolderFromTrash fuel userId folderId s =
     (case find (\<lambda>f. folder_id f = folderId \<and> folder_userId f = userId \<and> folder_deletedAt f \<noteq> None)
             (folders s) of
        None \<Rightarrow> Some (Inl NOT_FOUND, s)
      | Some folder \<Rightarrow>
          (let parentProblem =
                 (case folder_parentId folder of
                    None \<Rightarrow> False
                  | Some pid \<Rightarrow>
                      (case find (\<lambda>f. folder_id f = pid \<and> folder_userId f = userId) (folders s) of
                         None \<Rightarrow> True
                       | Some parentFolder \<Rightarrow> folder_deletedAt parentFolder \<noteq> None))
           in if parentProblem then Some (Inl PRECONDITION_FAILED, s)
              else
                (case collectTrashedFolderIds fuel (folders s) userId folderId of
                   None \<Rightarrow> None
                 | Some folderIds \<Rightarrow>
                     Some (Inr (length folderIds),
                       s\<lparr>userAssets :=
                           map (\<lambda>a. if asset_userId a = userId \<and> asset_deletedAt a \<noteq> None
                                        \<and> inFolders folderIds a
                                     then a\<lparr>asset_deletedAt := None\<rparr> else a)
                             (userAssets s),
                         folders := fold (setFolderDeletedAt None) folderIds (folders s)\<rparr>))))"

text \<open>
  The asset loop of \<^verbatim>\<open>permanentlyDeleteFolder\<close> and \<^verbatim>\<open>emptyTrash\<close>. The assets were read,
  each joined with its files row, before the transaction (\<open>snapshot\<close> is the files table
  of that moment); the loop adds up \<^verbatim>\<open>asset.file.size\<close>.
\<close>

fun releaseAll :: "file_row list \<Rightarrow> asset_row list \<Rightarrow> int \<Rightarrow> state \<Rightarrow> (error + int) \<times> state" where
  "releaseAll snapshot [] totalFreedBytes t = (Inr totalFreedBytes, t)"
| "releaseAll snapshot (asset # rest) totalFreedBytes t =
     (case releaseAsset (asset_id asset) (asset_fileHash asset) t of
        (Inl e, t1) \<Rightarrow> (Inl e, t1)
      | (Inr _, t1) \<Rightarrow>
          (case find (\<lambda>f. file_hash f = asset_fileHash asset) snapshot of
             None \<Rightarrow> (Inl INTERNAL_SERVER_ERROR, t1)
           | Some file \<Rightarrow> releaseAll snapshot rest (totalFreedBytes + file_size file) t1))"

text \<open>
  \<^verbatim>\<open>permanentlyDeleteFolder\<close>. The folder rows are deleted in the order of
  \<^verbatim>\<open>folderIds.reverse()\<close>; the result is the number of bytes released.
\<close>

definition purgeOrder :: "string list \<Rightarrow> string list" where
  "purgeOrder folderIds = rev folderIds"

definition permanentlyDeleteFolder ::
  "nat \<Rightarrow> string \<Rightarrow> string \<Rightarrow> state \<Rightarrow> ((error + int) \<times> state) option" where
  "permanentlyDeleteFolder fuel userId folderId s =
     (case find (\<lambda>f. folder_id f = folderId \<and> folder_userId f = userId \<and> folder_deletedAt f \<noteq> None)
             (folders s) of
        None \<Rightarrow> Some (Inl NOT_FOUND, s)
      | Some folder \<Rightarrow>
          (case collectAllFolderIds fuel (folders s) userId folderId of
             None \<Rightarrow> None
           | Some folderIds \<Rightarrow>
               (let assetsInFolders =
                      filter (\<lambda>a. asset_userId a = userId \<and> inFolders folderIds a) (userAssets s)
                in case transaction
                          (\<lambda>t. case releaseAll (files s) assetsInFolders 0 t of
                                  (Inl e, t1) \<Rightarrow> (Inl e, t1)
                                | (Inr totalFreedBytes, t1) \<Rightarrow>
                                    (Inr totalFreedBytes,
                                     fold purgeFolderRow (purgeOrder folderIds) t1))
                          s of
                     (Inl e, s1) \<Rightarrow> Some (Inl e, s1)
                   | (Inr totalFreedBytes, s1) \<Rightarrow>
                       Some (Inr totalFreedBytes,
                             updateStorageUsage userId (- totalFreedBytes) s1))))"

text \<open>
  \<^verbatim>\<open>emptyTrash\<close>. \<^verbatim>\<open>calculateDepth\<close> walks the parent links inside the list of trashed
  folders and has no bound: \<open>None\<close> is a walk that never ends. The depths are stored in a
  map keyed by folder id, and the folders are sorted by the comparator
  \<^verbatim>\<open>depth(b) - depth(a)\<close> (a stable sort), that is by descending depth. The asset loop
  is the only part of the transaction's body that can throw; the depth pass and the
  folder deletes follow it.
\<close>

partial_function (option) calculateDepth :: "folder_row list \<Rightarrow> string \<Rightarrow> nat \<Rightarrow> nat option" where
  "calculateDepth trashedFolders folderId depth =
     (case find (\<lambda>f. folder_id f = folderId) trashedFolders of
        None \<Rightarrow> Some depth
      | Some folder \<Rightarrow>
          (case folder_parentId folder of
             None \<Rightarrow> Some depth
           | Some pid \<Rightarrow>
               (case find (\<lambda>f. folder_id f = pid) trashedFolders of
                  None \<Rightarrow> Some depth
                | Some parent \<Rightarrow> calculateDepth trashedFolders (folder_id parent) (depth + 1))))"

fun folderDepths ::
  "folder_row list \<Rightarrow> folder_row list \<Rightarrow> (string \<rightharpoonup> nat) \<Rightarrow> (string \<rightharpoonup> nat) option" where
  "folderDepths trashedFolders [] m = Some m"
| "folderDepths trashedFolders (folder # rest) m =
     (case calculateDepth trashedFolders (folder_id folder) 0 of
        None \<Rightarrow> None
      | Some d \<Rightarrow> folderDepths trashedFolders rest (m(folder_id folder \<mapsto> d)))"

definition depthOf :: "(string \<rightharpoonup> nat) \<Rightarrow> folder_row \<Rightarrow> nat" where
  "depthOf m f = (case m (folder_id f) of None \<Rightarrow> 0 | Some d \<Rightarrow> d)"

definition sortedFolders :: "(string \<rightharpoonup> nat) \<Rightarrow> folder_row list \<Rightarrow> folder_row list" where
  "sortedFolders m trashedFolders = sort_key (\<lambda>f. - int (depthOf m f)) trashedFolders"

definition emptyTrash :: "string \<Rightarrow> state \<Rightarrow> ((error + int) \<times> state) option" where
  "emptyTrash userId s =
     (let trashedAssets =
            filter (\<lambda>a. asset_userId a = userId \<and> asset_deletedAt a \<noteq> None) (userAssets s);
          trashedFolders =
            filter (\<lambda>f. folder_userId f = userId \<and> folder_deletedAt f \<noteq> None) (folders s)
      in if trashedAssets = [] \<and> trashedFolders = [] then Some (Inr 0, s)
         else
           (case transaction (releaseAll (files s) trashedAssets 0) s of
              (Inl e, s1) \<Rightarrow> Some (Inl e, s1)
            | (Inr totalFreedBytes, t1) \<Rightarrow>
                (case folderDepths trashedFolders trashedFolders Map.empty of
                   None \<Rightarrow> None
                 | Some m \<Rightarrow>
                     Some (Inr totalFreedBytes,
                           updateStorageUsage userId (- totalFreedBytes)
                             (fold purgeFolderRow
                                (map folder_id (sortedFolders m trashedFolders)) t1)))))"

text \<open>
  \<^verbatim>\<open>moveFolder\<close> and its \<^verbatim>\<open>isDescendant\<close> (the later revision of the router, which has
  the folder move). \<^verbatim>\<open>isDescendant\<close> walks the parent links of \<open>checkId\<close> without a
  bound: \<open>None\<close> is a walk that never ends.
\<close>

partial_function (option) isDescendant :: "folder_row list \<Rightarrow> string \<Rightarrow> string \<Rightarrow> bool option" where
  "isDescendant fs ancestorId checkId =
     (case find (\<lambda>f. folder_id f = checkId) fs of
        None \<Rightarrow> Some False
      | Some checkFolder \<Rightarrow>
          (case folder_parentId checkFolder of
             None \<Rightarrow> Some False
           | Some pid \<Rightarrow>
               if pid = ancestorId then Some True else isDescendant fs ancestorId pid))"

definition setParent :: "string \<Rightarrow> string option \<Rightarrow> state \<Rightarrow> state" where
  "setParent folderId parentId s =
     s\<lparr>folders := map (\<lambda>f. if folder_id f = folderId then f\<lparr>folder_parentId := parentId\<rparr> else f)
                     (folders s)\<rparr>"

definition moveFolder ::
  "string \<Rightarrow> string \<Rightarrow> string option \<Rightarrow> state \<Rightarrow> ((error + unit) \<times> state) option" where
  "moveFolder userId folderId parentId s =
     (case find (\<lambda>f. folder_id f = folderId \<and> folder_userId f = userId \<and> folder_deletedAt f = None)
             (folders s) of
        None \<Rightarrow> Some (Inl NOT_FOUND, s)
      | Some folder \<Rightarrow>
          if parentId = Some folderId then Some (Inl BAD_REQUEST, s)
          else
            (case parentId of
               None \<Rightarrow> Some (Inr (), setParent folderId parentId s)
             | Some pid \<Rightarrow>
                 (case find (\<lambda>f. folder_id f = pid \<and> folder_userId f = userId
                                  \<and> folder_deletedAt f = None) (folders s) of
                    None \<Rightarrow> Some (Inl NOT_FOUND, s)
                  | Some targetFolder \<Rightarrow>
                      (case isDescendant (folders s) folderId pid of
                         None \<Rightarrow> None
                       | Some True \<Rightarrow> Some (Inl BAD_REQUEST, s)
                       | Some False \<Rightarrow> Some (Inr (), setParent folderId parentId s)))))"

section \<open>Properties of states\<close>

text \<open>
  The number of asset rows (trashed or not) whose \<^verbatim>\<open>file_hash\<close> is the given hash, and
  the invariant that every files row carries that number as its reference count.
\<close>

definition refsOf :: "state \<Rightarrow> string \<Rightarrow> nat" where
  "refsOf s hash = length (filter (\<lambda>a. asset_fileHash a = hash) (userAssets s))"

definition dedupInvariant :: "state \<Rightarrow> bool" where
  "dedupInvariant s = list_all (\<lambda>f. file_refCount f = int (refsOf s (file_hash f))) (files s)"

text \<open>
  What the store itself enforces on \<^verbatim>\<open>user_assets\<close>: the primary key and the foreign key
  to \<^verbatim>\<open>files\<close>.
\<close>

definition storeConstraints :: "state \<Rightarrow> bool" where
  "storeConstraints s =
     (distinct (map asset_id (userAssets s))
      \<and> list_all (\<lambda>a. asset_fileHash a \<in> file_hash ` set (files s)) (userAssets s))"

text \<open>The two states a release can end in.\<close>

definition releasedKeep :: "string \<Rightarrow> string \<Rightarrow> state \<Rightarrow> state" where
  "releasedKeep assetId hash t =
     t\<lparr>userAssets := filter (\<lambda>a. asset_id a \<noteq> assetId) (userAssets t),
       files := map (\<lambda>f. if file_hash f = hash
                          then f\<lparr>file_refCount := file_refCount f - 1\<rparr> else f) (files t)\<rparr>"

definition releasedDrop :: "string \<Rightarrow> string \<Rightarrow> string \<Rightarrow> state \<Rightarrow> state" where
  "releasedDrop assetId hash path t =
     t\<lparr>userAssets := filter (\<lambda>a. asset_id a \<noteq> assetId) (userAssets t),
       files := filter (\<lambda>f. file_hash f \<noteq> hash) (files t),
       blobs := filter (\<lambda>k. k \<noteq> path) (blobs t),
       s3Deleted := path # s3Deleted t\<rparr>"

text \<open>
  The byte limit of a user, read as \<^verbatim>\<open>getStats\<close> reads it, and the asset row that the
  two upload procedures insert.
\<close>

definition storageLimit :: "state \<Rightarrow> string \<Rightarrow> int" where
  "storageLimit s userId =
     (case find (\<lambda>q. quota_userId q = userId) (userQuotas s) of
        None \<Rightarrow> DEFAULT_STORAGE_LIMIT
      | Some quota \<Rightarrow> quota_storageLimit quota)"

definition newAsset :: "string \<Rightarrow> string \<Rightarrow> string \<Rightarrow> string option \<Rightarrow> string \<Rightarrow> asset_row" where
  "newAsset newId filename userId folderId hash =
     \<lparr>asset_id = newId, asset_name = filename, asset_userId = userId,
      asset_folderId = folderId, asset_fileHash = hash, asset_deletedAt = None\<rparr>"

text \<open>
  \<open>descendantOf fs F c\<close>: the folder \<open>c\<close> is reachable from \<open>F\<close> by going down parent
  links, that is \<open>F\<close> is the parent of \<open>c\<close>, or the parent of the parent, and so on. The row
  of an identifier is the one \<^verbatim>\<open>findFirst\<close> returns.
\<close>

inductive descendantOf :: "folder_row list \<Rightarrow> string \<Rightarrow> string \<Rightarrow> bool" for fs :: "folder_row list" and F :: string where
  child: "find (\<lambda>f. folder_id f = c) fs = Some row \<Longrightarrow> folder_parentId row = Some F
            \<Longrightarrow> descendantOf fs F c"
| below: "find (\<lambda>f. folder_id f = c) fs = Some row \<Longrightarrow> folder_parentId row = Some p
            \<Longrightarrow> descendantOf fs F p \<Longrightarrow> descendantOf fs F c"

text \<open>
  \<open>subtreeOf keep fs r x\<close>: \<open>x\<close> is \<open>r\<close> or is reached from \<open>r\<close> by going from a folder to
  child rows that satisfy \<open>keep\<close>.
\<close>

inductive subtreeOf :: "(folder_row \<Rightarrow> bool) \<Rightarrow> folder_row list \<Rightarrow> string \<Rightarrow> string \<Rightarrow> bool"
  for keep :: "folder_row \<Rightarrow> bool" and fs :: "folder_row list" and r :: string where
  root: "subtreeOf keep fs r r"
| child: "subtreeOf keep fs r p \<Longrightarrow> c \<in> set fs \<Longrightarrow> folder_parentId c = Some p \<Longrightarrow> keep c
            \<Longrightarrow> subtreeOf keep fs r (folder_id c)"

text \<open>The condition on the child rows in \<^verbatim>\<open>collectTrashedFolderIds\<close>, and the state after a restore of the folders \<open>ids\<close>.\<close>

definition trashedOf :: "string \<Rightarrow> folder_row \<Rightarrow> bool" where
  "trashedOf userId f = (folder_userId f = userId \<and> folder_deletedAt f \<noteq> None)"

definition restored :: "string \<Rightarrow> string list \<Rightarrow> state \<Rightarrow> state" where
  "restored u ids s =
     s\<lparr>userAssets :=
         map (\<lambda>a. if asset_userId a = u \<and> asset_deletedAt a \<noteq> None \<and> inFolders ids a
                   then a\<lparr>asset_deletedAt := None\<rparr> else a)
           (userAssets s),
       folders := fold (setFolderDeletedAt None) ids (folders s)\<rparr>"

section \<open>Example states\<close>

text \<open>Content hashes are 64 hexadecimal digits, row identifiers are UUIDs.\<close>

definition hashH :: string where
  "hashH = ''aaaaaaaaaaaaaaaaaaaaaaaaaaaaaaaaaaaaaaaaaaaaaaaaaaaaaaaaaaaaaaaa''"

definition hashK :: string where
  "hashK = ''bbbbbbbbbbbbbbbbbbbbbbbbbbbbbbbbbbbbbbbbbbbbbbbbbbbbbbbbbbbbbbbb''"

definition assetA :: string where
  "assetA = ''a1000000-0000-4000-8000-000000000000''"

definition assetB :: string where
  "assetB = ''a2000000-0000-4000-8000-000000000000''"

definition assetC :: string where
  "assetC = ''a3000000-0000-4000-8000-000000000000''"

definition folderF :: string where
  "folderF = ''f1000000-0000-4000-8000-000000000000''"

definition folderE :: string where
  "folderE = ''f2000000-0000-4000-8000-000000000000''"

definition windowV :: string where
  "windowV = ''e1000000-0000-4000-8000-000000000000''"

definition windowW :: string where
  "windowW = ''e2000000-0000-4000-8000-000000000000''"

definition assetD :: string where
  "assetD = ''a4000000-0000-4000-8000-000000000000''"

definition folderX :: string where
  "folderX = ''f9000000-0000-4000-8000-000000000000''"

definition emptyStore :: state where
  "emptyStore =
     \<lparr>files = [], userAssets = [], folders = [], userQuotas = [], rateLimitWindows = [],
      blobs = [], s3Deleted = [], folderDeletes = []\<rparr>"

definition fileH :: file_row where
  "fileH = \<lparr>file_hash = hashH, file_size = 100, file_path = hashH, file_refCount = 2\<rparr>"

definition fileK :: file_row where
  "fileK = \<lparr>file_hash = hashK, file_size = 40, file_path = hashK, file_refCount = 1\<rparr>"

definition rowA :: asset_row where
  "rowA = \<lparr>asset_id = assetA, asset_name = ''a.txt'', asset_userId = ''alice'',
           asset_folderId = None, asset_fileHash = hashH, asset_deletedAt = None\<rparr>"

definition rowB :: asset_row where
  "rowB = \<lparr>asset_id = assetB, asset_name = ''b.txt'', asset_userId = ''alice'',
           asset_folderId = Some folderF, asset_fileHash = hashH, asset_deletedAt = Some 5\<rparr>"

definition rowC :: asset_row where
  "rowC = \<lparr>asset_id = assetC, asset_name = ''c.txt'', asset_userId = ''bob'',
           asset_folderId = None, asset_fileHash = hashK, asset_deletedAt = Some 7\<rparr>"

definition rowF :: folder_row where
  "rowF = \<lparr>folder_id = folderF, folder_name = ''docs'', folder_userId = ''alice'',
           folder_parentId = None, folder_deletedAt = None\<rparr>"

definition rowE :: folder_row where
  "rowE = \<lparr>folder_id = folderE, folder_name = ''empty'', folder_userId = ''alice'',
           folder_parentId = None, folder_deletedAt = None\<rparr>"

text \<open>
  Alice has an active asset and a trashed one (the trashed one inside her folder
  \<open>folderF\<close>), both of content \<open>hashH\<close>; Bob has a trashed asset of content \<open>hashK\<close>.
\<close>

definition exampleStore :: state where
  "exampleStore =
     \<lparr>files = [fileH, fileK],
      userAssets = [rowA, rowB, rowC],
      folders = [rowF, rowE],
      userQuotas =
        [\<lparr>quota_userId = ''alice'', quota_storageUsed = 200,
          quota_storageLimit = DEFAULT_STORAGE_LIMIT, quota_rateLimit = 2\<rparr>,
         \<lparr>quota_userId = ''bob'', quota_storageUsed = 40,
          quota_storageLimit = DEFAULT_STORAGE_LIMIT, quota_rateLimit = 2\<rparr>],
      rateLimitWindows = [], blobs = [hashH, hashK], s3Deleted = [], folderDeletes = []\<rparr>"

text \<open>
  \<open>exampleStore\<close> at a moment when Alice has used up her two requests of the window that
  starts at 5000 ms.
\<close>

definition busyStore :: state where
  "busyStore =
     exampleStore\<lparr>rateLimitWindows :=
       [\<lparr>window_id = windowV, window_userId = ''alice'', window_windowStart = 5000,
         window_requestCount = 2\<rparr>]\<rparr>"

definition folderP :: string where
  "folderP = ''f3000000-0000-4000-8000-000000000000''"

definition folderQ :: string where
  "folderQ = ''f4000000-0000-4000-8000-000000000000''"

definition folderS :: string where
  "folderS = ''f5000000-0000-4000-8000-000000000000''"

definition folderT :: string where
  "folderT = ''f6000000-0000-4000-8000-000000000000''"

text \<open>
  Alice's folders: \<open>folderP\<close> at the root, \<open>folderQ\<close> inside it, \<open>folderS\<close> inside
  \<open>folderQ\<close>, all active, and \<open>folderT\<close> inside \<open>folderP\<close>, trashed.
\<close>

definition treeStore :: state where
  "treeStore =
     \<lparr>files = [], userAssets = [],
      folders =
        [\<lparr>folder_id = folderP, folder_name = ''p'', folder_userId = ''alice'',
          folder_parentId = None, folder_deletedAt = None\<rparr>,
         \<lparr>folder_id = folderQ, folder_name = ''q'', folder_userId = ''alice'',
          folder_parentId = Some folderP, folder_deletedAt = None\<rparr>,
         \<lparr>folder_id = folderS, folder_name = ''s'', folder_userId = ''alice'',
          folder_parentId = Some folderQ, folder_deletedAt = None\<rparr>,
         \<lparr>folder_id = folderT, folder_name = ''t'', folder_userId = ''alice'',
          folder_parentId = Some folderP, folder_deletedAt = Some 3\<rparr>],
      userQuotas = [], rateLimitWindows = [], blobs = [], s3Deleted = [], folderDeletes = []\<rparr>"

lemmas tree_defs = treeStore_def folderP_def folderQ_def folderS_def folderT_def

definition folderR :: string where
  "folderR = ''fa000000-0000-4000-8000-000000000000''"

definition folderA :: string where
  "folderA = ''fb000000-0000-4000-8000-000000000000''"

definition folderA1 :: string where
  "folderA1 = ''fc000000-0000-4000-8000-000000000000''"

definition folderB :: string where
  "folderB = ''fd000000-0000-4000-8000-000000000000''"

definition folderU :: string where
  "folderU = ''c1000000-0000-4000-8000-000000000000''"

definition folderV :: string where
  "folderV = ''c2000000-0000-4000-8000-000000000000''"

definition folderW :: string where
  "folderW = ''c3000000-0000-4000-8000-000000000000''"

definition assetZ :: string where
  "assetZ = ''a5000000-0000-4000-8000-000000000000''"

definition rowR :: folder_row where
  "rowR = \<lparr>folder_id = folderR, folder_name = ''r'', folder_userId = ''alice'',
           folder_parentId = None, folder_deletedAt = Some 4\<rparr>"

definition rowA' :: folder_row where
  "rowA' = \<lparr>folder_id = folderA, folder_name = ''a'', folder_userId = ''alice'',
            folder_parentId = Some folderR, folder_deletedAt = Some 4\<rparr>"

definition rowA1 :: folder_row where
  "rowA1 = \<lparr>folder_id = folderA1, folder_name = ''a1'', folder_userId = ''alice'',
            folder_parentId = Some folderA, folder_deletedAt = Some 4\<rparr>"

definition rowB' :: folder_row where
  "rowB' = \<lparr>folder_id = folderB, folder_name = ''b'', folder_userId = ''alice'',
            folder_parentId = Some folderR, folder_deletedAt = Some 4\<rparr>"

definition rowZ :: asset_row where
  "rowZ = \<lparr>asset_id = assetZ, asset_name = ''z.txt'', asset_userId = ''alice'',
           asset_folderId = Some folderA1, asset_fileHash = hashH, asset_deletedAt = Some 4\<rparr>"

text \<open>
  Alice trashed \<open>folderR\<close>, which holds \<open>folderA\<close> (holding \<open>folderA1\<close> with one asset)
  and \<open>folderB\<close>.
\<close>

definition trashStore :: state where
  "trashStore =
     \<lparr>files = [\<lparr>file_hash = hashH, file_size = 100, file_path = hashH, file_refCount = 1\<rparr>],
      userAssets = [rowZ],
      folders = [rowR, rowA', rowA1, rowB'],
      userQuotas =
        [\<lparr>quota_userId = ''alice'', quota_storageUsed = 100,
          quota_storageLimit = DEFAULT_STORAGE_LIMIT, quota_rateLimit = 2\<rparr>],
      rateLimitWindows = [], blobs = [hashH], s3Deleted = [], folderDeletes = []\<rparr>"

definition trashDepth :: "string \<Rightarrow> nat" where
  "trashDepth x = (if x = folderA1 then 2 else if x = folderA \<or> x = folderB then 1 else 0)"

text \<open>
  Alice trashed \<open>folderU\<close>, then created \<open>folderV\<close> inside it (\<^verbatim>\<open>createFolder\<close> does not
  look at \<^verbatim>\<open>deletedAt\<close> of the parent), created \<open>folderW\<close> inside \<open>folderV\<close> and trashed
  \<open>folderW\<close>.
\<close>

definition gapStore :: state where
  "gapStore =
     \<lparr>files = [], userAssets = [],
      folders =
        [\<lparr>folder_id = folderU, folder_name = ''u'', folder_userId = ''alice'',
          folder_parentId = None, folder_deletedAt = Some 1\<rparr>,
         \<lparr>folder_id = folderV, folder_name = ''v'', folder_userId = ''alice'',
          folder_parentId = Some folderU, folder_deletedAt = None\<rparr>,
         \<lparr>folder_id = folderW, folder_name = ''w'', folder_userId = ''alice'',
          folder_parentId = Some folderV, folder_deletedAt = Some 2\<rparr>],
      userQuotas = [], rateLimitWindows = [], blobs = [], s3Deleted = [], folderDeletes = []\<rparr>"

lemmas trash_defs =
  trashStore_def rowR_def rowA'_def rowA1_def rowB'_def rowZ_def folderR_def folderA_def
  folderA1_def folderB_def assetZ_def hashH_def

lemmas gap_defs = gapStore_def folderU_def folderV_def folderW_def

lemmas example_defs =
  exampleStore_def rowA_def rowB_def rowC_def rowF_def rowE_def fileH_def fileK_def
  hashH_def hashK_def assetA_def assetB_def assetC_def assetD_def folderF_def folderE_def
  folderX_def windowV_def windowW_def

lemmas admission_defs =
  rateLimitedProcedure_def checkRateLimit_def userRateLimit_def windowCount_def
  checkStorageQuota_def updateStorageUsage_def storageUsed_def storageLimit_def defaultQuota_def
  DEFAULT_STORAGE_LIMIT_def DEFAULT_RATE_LIMIT_def RATE_LIMIT_WINDOW_MS_def

lemmas upload_defs =
  getUploadPresignedUrl_def confirmUpload_def insertAsset_def upsertFile_def
  incrementRefCount_def transaction_def

section \<open>Lists and tables\<close>

lemma distinct_key_eq:
  "distinct (map f xs) \<Longrightarrow> x \<in> set xs \<Longrightarrow> y \<in> set xs \<Longrightarrow> f x = f y \<Longrightarrow> x = y"
  by (meson distinct_map inj_on_def)

lemma find_map_stable:
  "(\<And>x. P (g x) = P x) \<Longrightarrow> find P (map g xs) = map_option g (find P xs)"
  by (induction xs) auto

lemma find_filter_snoc:
  "\<forall>x \<in> set xs. \<not> P x \<Longrightarrow> P y \<Longrightarrow> Q y \<Longrightarrow> find P (filter Q (xs @ [y])) = Some y"
  by (induction xs) auto

lemma window_start_of:
  assumes "k * 1000 \<le> (t::int)" "t < k * 1000 + 1000"
  shows "t div 1000 * 1000 = k * 1000"
proof -
  have "(t - k * 1000) div 1000 = 0"
    using assms by (intro div_pos_pos_trivial) auto
  moreover have "((t - k * 1000) + k * 1000) div 1000 = k + (t - k * 1000) div 1000"
    by (rule div_mult_self1) simp
  ultimately have "t div 1000 = k" by simp
  then show ?thesis by simp
qed

lemma map_guarded_id: "\<forall>x \<in> set xs. \<not> c x \<Longrightarrow> map (\<lambda>x. if c x then g x else x) xs = xs"
  by (induction xs) auto

lemma find_map_some:
  "find P xs = Some x \<Longrightarrow> (\<And>y. P (g y) = P y) \<Longrightarrow> find P (map g xs) = Some (g x)"
  by (simp add: find_map_stable)

lemma find_snoc:
  "find P (xs @ [y]) = (case find P xs of None \<Rightarrow> if P y then Some y else None | Some x \<Rightarrow> Some x)"
  by (induction xs) auto

lemma find_unique:
  assumes d: "distinct (map key xs)" and a: "a \<in> set xs" and pa: "P a"
    and k: "\<forall>x. P x \<longrightarrow> key x = key a"
  shows "find P xs = Some a"
proof -
  have "\<exists>i < length xs. P (xs ! i) \<and> a = xs ! i \<and> (\<forall>j < i. \<not> P (xs ! j))"
  proof -
    obtain i where i: "i < length xs" "xs ! i = a" using a by (auto simp: in_set_conv_nth)
    have "\<not> P (xs ! j)" if "j < i" for j
    proof
      assume "P (xs ! j)"
      then have e: "key (xs ! j) = key (xs ! i)" using k i(2) by blast
      have lj: "j < length (map key xs)" and li: "i < length (map key xs)"
        using that i(1) by simp_all
      have "(map key xs ! j = map key xs ! i) = (j = i)"
        using d lj li by (rule nth_eq_iff_index_eq)
      then have "j = i" using e that i(1) by simp
      then show False using that by simp
    qed
    then show ?thesis using i pa by blast
  qed
  then show ?thesis by (simp only: find_Some_iff)
qed

lemma updateStorageUsage_frame [simp]:
  "files (updateStorageUsage u d s) = files s"
  "userAssets (updateStorageUsage u d s) = userAssets s"
  "folders (updateStorageUsage u d s) = folders s"
  "rateLimitWindows (updateStorageUsage u d s) = rateLimitWindows s"
  "blobs (updateStorageUsage u d s) = blobs s"
  "s3Deleted (updateStorageUsage u d s) = s3Deleted s"
  "folderDeletes (updateStorageUsage u d s) = folderDeletes s"
  by (simp_all add: updateStorageUsage_def)

lemma transaction_ok: "body s = (Inr x, t) \<Longrightarrow> transaction body s = (Inr x, t)"
  by (simp add: transaction_def)

lemma transaction_fail:
  "body s = (Inl e, t) \<Longrightarrow> transaction body s = (Inl e, s\<lparr>blobs := blobs t, s3Deleted := s3Deleted t\<rparr>)"
  by (simp add: transaction_def)

section \<open>The rate limiter\<close>

lemma checkRateLimit_insert:
  assumes "\<forall>r \<in> set (rateLimitWindows s). \<not> (window_userId r = u \<and> window_windowStart r = now div 1000 * 1000)"
    and "newId \<notin> window_id ` set (rateLimitWindows s)"
  shows "checkRateLimit u now newId s =
           (Inr (), s\<lparr>rateLimitWindows :=
              filter (\<lambda>r. \<not> (window_userId r = u \<and> window_windowStart r < now - 60000))
                (rateLimitWindows s @
                   [\<lparr>window_id = newId, window_userId = u,
                     window_windowStart = now div 1000 * 1000, window_requestCount = 1\<rparr>])\<rparr>)"
proof -
  have "find (\<lambda>w. window_userId w = u \<and> window_windowStart w = now div 1000 * 1000)
          (rateLimitWindows s) = None"
    using assms(1) by (simp add: find_None_iff)
  then show ?thesis
    using assms(2) by (simp add: checkRateLimit_def RATE_LIMIT_WINDOW_MS_def Let_def)
qed

lemma checkRateLimit_found:
  assumes "find (\<lambda>w. window_userId w = u \<and> window_windowStart w = now div 1000 * 1000)
             (rateLimitWindows s) = Some w"
  shows "checkRateLimit u now newId s =
           (if window_requestCount w \<ge> userRateLimit s u then (Inl TOO_MANY_REQUESTS, s)
            else (Inr (), s\<lparr>rateLimitWindows :=
                   map (\<lambda>r. if window_id r = window_id w
                             then r\<lparr>window_requestCount := window_requestCount r + 1\<rparr>
                             else r) (rateLimitWindows s)\<rparr>))"
  using assms by (simp add: checkRateLimit_def RATE_LIMIT_WINDOW_MS_def Let_def)

text \<open>
  C7. With a limit of 2 requests per window of 1000 ms and no row yet for the user in the
  window starting at \<open>k * 1000\<close> nor in the next one: a first request in the window
  inserts the row at count 1, a second raises it to 2, a third is refused with
  \<^verbatim>\<open>TOO_MANY_REQUESTS\<close> and leaves the state as it was, and a request in the next window
  is accepted again. The identifiers of the inserted rows are fresh.
\<close>

theorem rate_limit_window:
  assumes lim: "userRateLimit s u = 2"
    and fresh: "\<forall>r \<in> set (rateLimitWindows s). window_userId r = u \<longrightarrow>
                  window_windowStart r \<noteq> k * 1000 \<and> window_windowStart r \<noteq> k * 1000 + 1000"
    and ids: "i1 \<notin> window_id ` set (rateLimitWindows s)"
             "i4 \<notin> window_id ` set (rateLimitWindows s)" "i4 \<noteq> i1"
    and t1: "k * 1000 \<le> t1" "t1 < k * 1000 + 1000"
    and t2: "k * 1000 \<le> t2" "t2 < k * 1000 + 1000"
    and t3: "k * 1000 \<le> t3" "t3 < k * 1000 + 1000"
    and t4: "k * 1000 + 1000 \<le> t4" "t4 < k * 1000 + 2000"
  shows "\<exists>s1 s2 s3.
           checkRateLimit u t1 i1 s = (Inr (), s1) \<and> windowCount s1 u (k * 1000) = 1
         \<and> checkRateLimit u t2 i2 s1 = (Inr (), s2) \<and> windowCount s2 u (k * 1000) = 2
         \<and> checkRateLimit u t3 i3 s2 = (Inl TOO_MANY_REQUESTS, s2)
         \<and> checkRateLimit u t4 i4 s2 = (Inr (), s3) \<and> windowCount s3 u (k * 1000 + 1000) = 1"
proof -
  define w where "w = k * 1000"
  define P where "P = (\<lambda>r::window_row. window_userId r = u \<and> window_windowStart r = w)"
  define new where
    "new = \<lparr>window_id = i1, window_userId = u, window_windowStart = w, window_requestCount = 1\<rparr>"
  define Q1 where "Q1 = (\<lambda>r::window_row. \<not> (window_userId r = u \<and> window_windowStart r < t1 - 60000))"
  define rows1 where "rows1 = filter Q1 (rateLimitWindows s @ [new])"
  define s1 where "s1 = s\<lparr>rateLimitWindows := rows1\<rparr>"
  define g where
    "g = (\<lambda>r::window_row. if window_id r = i1 then r\<lparr>window_requestCount := window_requestCount r + 1\<rparr> else r)"
  define rows2 where "rows2 = map g rows1"
  define s2 where "s2 = s1\<lparr>rateLimitWindows := rows2\<rparr>"
  define P4 where "P4 = (\<lambda>r::window_row. window_userId r = u \<and> window_windowStart r = w + 1000)"
  define new4 where
    "new4 = \<lparr>window_id = i4, window_userId = u, window_windowStart = w + 1000, window_requestCount = 1\<rparr>"
  define Q4 where "Q4 = (\<lambda>r::window_row. \<not> (window_userId r = u \<and> window_windowStart r < t4 - 60000))"
  define s3 where "s3 = s2\<lparr>rateLimitWindows := filter Q4 (rows2 @ [new4])\<rparr>"
  have w1: "t1 div 1000 * 1000 = w" unfolding w_def using t1 by (rule window_start_of)
  have w2: "t2 div 1000 * 1000 = w" unfolding w_def using t2 by (rule window_start_of)
  have w3: "t3 div 1000 * 1000 = w" unfolding w_def using t3 by (rule window_start_of)
  have w4: "t4 div 1000 * 1000 = w + 1000"
    unfolding w_def using window_start_of[of "k + 1" t4] t4 by (simp add: algebra_simps)
  have noP: "\<forall>r \<in> set (rateLimitWindows s). \<not> P r" using fresh by (auto simp: P_def w_def)
  have r1: "checkRateLimit u t1 i1 s = (Inr (), s1)"
    using checkRateLimit_insert[of s u t1 i1] noP ids(1)
    by (simp add: w1 P_def s1_def rows1_def Q1_def new_def)
  have Pnew: "P new" by (simp add: P_def new_def)
  have Qnew: "Q1 new" using t1 by (simp add: Q1_def new_def w_def)
  have f1: "find P rows1 = Some new"
    unfolding rows1_def using noP Pnew Qnew by (rule find_filter_snoc)
  have c1: "windowCount s1 u w = 1"
    using f1 by (simp add: windowCount_def s1_def P_def new_def)
  have lim1: "userRateLimit s1 u = 2" using lim by (simp add: userRateLimit_def s1_def)
  have f1': "find (\<lambda>w'. window_userId w' = u \<and> window_windowStart w' = t2 div 1000 * 1000)
              (rateLimitWindows s1) = Some new"
    using f1 by (simp add: w2 P_def s1_def)
  have r2: "checkRateLimit u t2 i2 s1 = (Inr (), s2)"
    using checkRateLimit_found[OF f1', of i2] lim1
    by (simp add: new_def s2_def rows2_def g_def s1_def)
  have Pg: "\<And>x. P (g x) = P x" by (simp add: P_def g_def)
  have f2: "find P rows2 = Some (g new)"
    unfolding rows2_def by (simp add: find_map_stable[of P g, OF Pg] f1)
  have cg: "window_requestCount (g new) = 2" by (simp add: g_def new_def)
  have c2: "windowCount s2 u w = 2"
    using f2 cg by (simp add: windowCount_def s2_def P_def)
  have lim2: "userRateLimit s2 u = 2" using lim1 by (simp add: userRateLimit_def s2_def)
  have f2': "find (\<lambda>w'. window_userId w' = u \<and> window_windowStart w' = t3 div 1000 * 1000)
              (rateLimitWindows s2) = Some (g new)"
    using f2 by (simp add: w3 P_def s2_def)
  have r3: "checkRateLimit u t3 i3 s2 = (Inl TOO_MANY_REQUESTS, s2)"
    using checkRateLimit_found[OF f2', of i3] lim2 cg by simp
  have noP4: "\<forall>r \<in> set rows2. \<not> P4 r"
    using fresh by (auto simp: rows2_def rows1_def P4_def g_def new_def w_def)
  have id4: "i4 \<notin> window_id ` set rows2"
    using ids by (auto simp: rows2_def rows1_def g_def new_def)
  have r4: "checkRateLimit u t4 i4 s2 = (Inr (), s3)"
    using checkRateLimit_insert[of s2 u t4 i4] noP4 id4
    by (simp add: w4 P4_def s3_def s2_def Q4_def new4_def)
  have P4new: "P4 new4" by (simp add: P4_def new4_def)
  have Q4new: "Q4 new4" using t4 by (simp add: Q4_def new4_def w_def)
  have f4: "find P4 (filter Q4 (rows2 @ [new4])) = Some new4"
    using noP4 P4new Q4new by (rule find_filter_snoc)
  have c4: "windowCount s3 u (w + 1000) = 1"
    using f4 by (simp add: windowCount_def s3_def P4_def new4_def)
  show ?thesis using r1 c1 r2 c2 r3 r4 c4 unfolding w_def by blast
qed

text \<open>C7 in the empty store: three requests of Alice in the window starting at 5000 ms and one in the next.\<close>

theorem rate_limit_window_witness:
  "userRateLimit emptyStore ''alice'' = 2
   \<and> (\<exists>s1 s2 s3.
           checkRateLimit ''alice'' 5100 windowV emptyStore = (Inr (), s1)
         \<and> windowCount s1 ''alice'' 5000 = 1
         \<and> checkRateLimit ''alice'' 5500 windowW s1 = (Inr (), s2)
         \<and> windowCount s2 ''alice'' 5000 = 2
         \<and> checkRateLimit ''alice'' 5999 windowW s2 = (Inl TOO_MANY_REQUESTS, s2)
         \<and> checkRateLimit ''alice'' 6000 windowW s2 = (Inr (), s3)
         \<and> windowCount s3 ''alice'' 6000 = 1)"
proof -
  have lim: "userRateLimit emptyStore ''alice'' = 2"
    by (simp add: userRateLimit_def emptyStore_def DEFAULT_RATE_LIMIT_def)
  have ne: "windowW \<noteq> windowV" by (simp add: windowW_def windowV_def)
  show ?thesis
    using lim rate_limit_window [of emptyStore "''alice''" 5 windowV windowW 5100 5500 5999 6000
        windowW windowW, OF lim _ _ _ ne]
    by (simp add: emptyStore_def)
qed

section \<open>Trash and strict delete\<close>

text \<open>
  C10. For an asset row of the user (identifiers are a primary key): when it is trashed,
  \<^verbatim>\<open>moveToTrash\<close> fails with \<^verbatim>\<open>NOT_FOUND\<close> and leaves the state as it was, while
  \<^verbatim>\<open>restoreFromTrash\<close> succeeds and clears \<^verbatim>\<open>deletedAt\<close>; when it is active,
  \<^verbatim>\<open>restoreFromTrash\<close> fails with \<^verbatim>\<open>NOT_FOUND\<close> and leaves the state as it was, while
  \<^verbatim>\<open>moveToTrash\<close> succeeds and sets \<^verbatim>\<open>deletedAt\<close>.
\<close>

theorem trash_restore_strict:
  assumes pk: "distinct (map asset_id (userAssets s))"
    and a: "a \<in> set (userAssets s)" and own: "asset_userId a = userId"
  shows "(asset_deletedAt a \<noteq> None \<longrightarrow>
            moveToTrash userId (asset_id a) now s = (Inl NOT_FOUND, s)
          \<and> fst (restoreFromTrash userId (asset_id a) s) = Inr ()
          \<and> (\<forall>b \<in> set (userAssets (snd (restoreFromTrash userId (asset_id a) s))).
                asset_id b = asset_id a \<longrightarrow> asset_deletedAt b = None))
       \<and> (asset_deletedAt a = None \<longrightarrow>
            restoreFromTrash userId (asset_id a) s = (Inl NOT_FOUND, s)
          \<and> fst (moveToTrash userId (asset_id a) now s) = Inr ()
          \<and> (\<forall>b \<in> set (userAssets (snd (moveToTrash userId (asset_id a) now s))).
                asset_id b = asset_id a \<longrightarrow> asset_deletedAt b = Some now))"
proof -
  have uniq: "\<And>b. b \<in> set (userAssets s) \<Longrightarrow> asset_id b = asset_id a \<Longrightarrow> b = a"
    using pk a by (metis distinct_key_eq)
  define ct where "ct = (\<lambda>b::asset_row. asset_id b = asset_id a \<and> asset_userId b = userId \<and> asset_deletedAt b = None)"
  define cr where "cr = (\<lambda>b::asset_row. asset_id b = asset_id a \<and> asset_userId b = userId \<and> asset_deletedAt b \<noteq> None)"
  have mt: "moveToTrash userId (asset_id a) now s =
     (case filter ct (userAssets s) of [] \<Rightarrow> Inl NOT_FOUND | _ # _ \<Rightarrow> Inr (),
      s\<lparr>userAssets := map (\<lambda>b. if ct b then b\<lparr>asset_deletedAt := Some now\<rparr> else b) (userAssets s)\<rparr>)"
    by (simp add: moveToTrash_def Let_def ct_def split: list.split)
  have rt: "restoreFromTrash userId (asset_id a) s =
     (case filter cr (userAssets s) of [] \<Rightarrow> Inl NOT_FOUND | _ # _ \<Rightarrow> Inr (),
      s\<lparr>userAssets := map (\<lambda>b. if cr b then b\<lparr>asset_deletedAt := None\<rparr> else b) (userAssets s)\<rparr>)"
    by (simp add: restoreFromTrash_def Let_def cr_def split: list.split)
  show ?thesis
  proof (intro conjI impI)
    assume t: "asset_deletedAt a \<noteq> None"
    have no: "\<forall>b \<in> set (userAssets s). \<not> ct b" using uniq t by (auto simp: ct_def)
    then have "filter ct (userAssets s) = []" by (simp add: filter_empty_conv)
    then show "moveToTrash userId (asset_id a) now s = (Inl NOT_FOUND, s)"
      by (simp add: mt map_guarded_id[OF no])
    have "cr a" using t own by (simp add: cr_def)
    then have "filter cr (userAssets s) \<noteq> []" using a by (auto simp: filter_empty_conv)
    then show "fst (restoreFromTrash userId (asset_id a) s) = Inr ()"
      by (simp add: rt split: list.split)
    show "\<forall>b \<in> set (userAssets (snd (restoreFromTrash userId (asset_id a) s))).
                asset_id b = asset_id a \<longrightarrow> asset_deletedAt b = None"
      using uniq \<open>cr a\<close> by (auto simp: rt)
  next
    assume t: "asset_deletedAt a = None"
    have no: "\<forall>b \<in> set (userAssets s). \<not> cr b" using uniq t by (auto simp: cr_def)
    then have "filter cr (userAssets s) = []" by (simp add: filter_empty_conv)
    then show "restoreFromTrash userId (asset_id a) s = (Inl NOT_FOUND, s)"
      by (simp add: rt map_guarded_id[OF no])
    have "ct a" using t own by (simp add: ct_def)
    then have "filter ct (userAssets s) \<noteq> []" using a by (auto simp: filter_empty_conv)
    then show "fst (moveToTrash userId (asset_id a) now s) = Inr ()"
      by (simp add: mt split: list.split)
    show "\<forall>b \<in> set (userAssets (snd (moveToTrash userId (asset_id a) now s))).
                asset_id b = asset_id a \<longrightarrow> asset_deletedAt b = Some now"
      using uniq \<open>ct a\<close> by (auto simp: mt)
  qed
qed

text \<open>C10 in \<open>exampleStore\<close>, at Alice's trashed asset \<open>assetB\<close> and her active asset \<open>assetA\<close>.\<close>

theorem trash_restore_strict_witness:
  "moveToTrash ''alice'' assetB 9 exampleStore = (Inl NOT_FOUND, exampleStore)
   \<and> fst (restoreFromTrash ''alice'' assetB exampleStore) = Inr ()
   \<and> restoreFromTrash ''alice'' assetA exampleStore = (Inl NOT_FOUND, exampleStore)
   \<and> fst (moveToTrash ''alice'' assetA 9 exampleStore) = Inr ()"
proof -
  have pk: "distinct (map asset_id (userAssets exampleStore))"
    by (simp add: exampleStore_def rowA_def rowB_def rowC_def assetA_def assetB_def assetC_def)
  have a: "rowA \<in> set (userAssets exampleStore)" and b: "rowB \<in> set (userAssets exampleStore)"
    by (simp_all add: exampleStore_def)
  have oa: "asset_userId rowA = ''alice''" and ob: "asset_userId rowB = ''alice''"
    by (simp_all add: rowA_def rowB_def)
  have ida: "asset_id rowA = assetA" and idb: "asset_id rowB = assetB"
    by (simp_all add: rowA_def rowB_def)
  have ta: "asset_deletedAt rowA = None" and tb: "asset_deletedAt rowB \<noteq> None"
    by (simp_all add: rowA_def rowB_def)
  have A: "restoreFromTrash ''alice'' assetA exampleStore = (Inl NOT_FOUND, exampleStore)
      \<and> fst (moveToTrash ''alice'' assetA 9 exampleStore) = Inr ()"
    using trash_restore_strict [OF pk a oa, of 9] ta unfolding ida by blast
  have B: "moveToTrash ''alice'' assetB 9 exampleStore = (Inl NOT_FOUND, exampleStore)
      \<and> fst (restoreFromTrash ''alice'' assetB exampleStore) = Inr ()"
    using trash_restore_strict [OF pk b ob, of 9] tb unfolding idb by blast
  show ?thesis using A B by blast
qed

text \<open>
  C9. For a folder row of the user: \<^verbatim>\<open>deleteFolder\<close> fails with
  \<^verbatim>\<open>PRECONDITION_FAILED\<close> and leaves the state as it was as soon as some asset row has it
  as folder or some folder row has it as parent, whatever \<^verbatim>\<open>deletedAt\<close> of that row is;
  without any such row it succeeds and removes the folder row.
\<close>

theorem deleteFolder_strict:
  assumes f: "f \<in> set (folders s)" and fid: "folder_id f = folderId" and own: "folder_userId f = userId"
  shows "((\<exists>a \<in> set (userAssets s). asset_folderId a = Some folderId)
            \<or> (\<exists>c \<in> set (folders s). folder_parentId c = Some folderId)
          \<longrightarrow> deleteFolder userId folderId s = (Inl PRECONDITION_FAILED, s))
       \<and> (\<not> (\<exists>a \<in> set (userAssets s). asset_folderId a = Some folderId)
            \<and> \<not> (\<exists>c \<in> set (folders s). folder_parentId c = Some folderId)
          \<longrightarrow> deleteFolder userId folderId s =
                (Inr (), s\<lparr>folders := filter (\<lambda>x. folder_id x \<noteq> folderId) (folders s)\<rparr>))"
proof -
  obtain folder where fd: "find (\<lambda>x. folder_id x = folderId \<and> folder_userId x = userId) (folders s) = Some folder"
    using f fid own by (cases "find (\<lambda>x. folder_id x = folderId \<and> folder_userId x = userId) (folders s)")
      (auto simp: find_None_iff)
  have ha: "(find (\<lambda>a. asset_folderId a = Some folderId) (userAssets s) \<noteq> None)
      = (\<exists>a \<in> set (userAssets s). asset_folderId a = Some folderId)"
    by (auto simp: find_None_iff)
  have hf: "(find (\<lambda>c. folder_parentId c = Some folderId) (folders s) \<noteq> None)
      = (\<exists>c \<in> set (folders s). folder_parentId c = Some folderId)"
    by (auto simp: find_None_iff)
  have d: "deleteFolder userId folderId s =
     (if (\<exists>a \<in> set (userAssets s). asset_folderId a = Some folderId)
            \<or> (\<exists>c \<in> set (folders s). folder_parentId c = Some folderId)
      then (Inl PRECONDITION_FAILED, s) else (Inr (), deleteFolderRow folderId s))"
    unfolding deleteFolder_def Let_def fd ha hf by simp
  have e: "\<not> (\<exists>a \<in> set (userAssets s). asset_folderId a = Some folderId) \<Longrightarrow>
        deleteFolderRow folderId s = s\<lparr>folders := filter (\<lambda>x. folder_id x \<noteq> folderId) (folders s)\<rparr>"
    by (simp add: deleteFolderRow_def map_guarded_id)
  show ?thesis using d e by auto
qed

text \<open>C9 in \<open>exampleStore\<close>: \<open>folderF\<close> holds only a trashed asset and cannot be deleted; \<open>folderE\<close> is empty and can.\<close>

theorem deleteFolder_strict_witness:
  "asset_deletedAt rowB = Some 5 \<and> asset_folderId rowB = Some folderF
   \<and> deleteFolder ''alice'' folderF exampleStore = (Inl PRECONDITION_FAILED, exampleStore)
   \<and> deleteFolder ''alice'' folderE exampleStore
        = (Inr (), exampleStore\<lparr>folders := [rowF]\<rparr>)"
proof -
  have f: "rowF \<in> set (folders exampleStore)" and e: "rowE \<in> set (folders exampleStore)"
    by (simp_all add: exampleStore_def)
  have ne: "folderF \<noteq> folderE" by (simp add: folderF_def folderE_def)
  have full: "\<exists>a \<in> set (userAssets exampleStore). asset_folderId a = Some folderF"
    by (simp add: exampleStore_def rowB_def)
  have noA: "\<not> (\<exists>a \<in> set (userAssets exampleStore). asset_folderId a = Some folderE)"
    using ne by (simp add: exampleStore_def rowA_def rowB_def rowC_def)
  have noF: "\<not> (\<exists>c \<in> set (folders exampleStore). folder_parentId c = Some folderE)"
    by (simp add: exampleStore_def rowF_def rowE_def)
  have keep: "filter (\<lambda>x. folder_id x \<noteq> folderE) (folders exampleStore) = [rowF]"
    using ne by (simp add: exampleStore_def rowF_def rowE_def)
  show ?thesis
    using deleteFolder_strict [OF f, of folderF "''alice''"]
      deleteFolder_strict [OF e, of folderE "''alice''"] full noA noF keep
    by (simp add: rowF_def rowE_def rowB_def)
qed

section \<open>Releasing a reference\<close>

lemma count_after_delete:
  "distinct (map asset_id xs) \<Longrightarrow> a \<in> set xs \<Longrightarrow>
     length (filter P (filter (\<lambda>b. asset_id b \<noteq> asset_id a) xs))
       = length (filter P xs) - (if P a then 1 else 0)"
proof (induction xs)
  case Nil
  then show ?case by simp
next
  case (Cons x xs)
  show ?case
  proof (cases "x = a")
    case True
    then have "\<forall>b \<in> set xs. asset_id b \<noteq> asset_id a" using Cons.prems by (fastforce simp: image_iff)
    then have "filter (\<lambda>b. asset_id b \<noteq> asset_id a) xs = xs" by (simp add: filter_id_conv)
    then show ?thesis using True by simp
  next
    case False
    then have ne: "asset_id x \<noteq> asset_id a" and a: "a \<in> set xs" using Cons.prems by auto
    have ih: "length (filter P (filter (\<lambda>b. asset_id b \<noteq> asset_id a) xs))
       = length (filter P xs) - (if P a then 1 else 0)"
      using Cons.IH Cons.prems a by simp
    have pos: "P a \<Longrightarrow> 0 < length (filter P xs)" using a by (auto simp: filter_empty_conv)
    show ?thesis using ne ih pos by auto
  qed
qed

lemma refsOf_after_delete:
  assumes "distinct (map asset_id (userAssets t))" "a \<in> set (userAssets t)"
  shows "refsOf (t\<lparr>userAssets := filter (\<lambda>b. asset_id b \<noteq> asset_id a) (userAssets t)\<rparr>) h
          = refsOf t h - (if asset_fileHash a = h then 1 else 0)"
  using count_after_delete[OF assms, of "\<lambda>b. asset_fileHash b = h"] by (simp add: refsOf_def)

lemma refsOf_files_irrelevant [simp]: "refsOf (t\<lparr>files := x\<rparr>) h = refsOf t h"
  by (simp add: refsOf_def)

lemma refsOf_pos: "a \<in> set (userAssets t) \<Longrightarrow> 0 < refsOf t (asset_fileHash a)"
  by (auto simp: refsOf_def filter_empty_conv)

lemma refsOf_zero: "(refsOf t h = 0) = (h \<notin> asset_fileHash ` set (userAssets t))"
  by (auto simp: refsOf_def filter_empty_conv)

lemma find_map_dec:
  "find (\<lambda>f. file_hash f = h)
      (map (\<lambda>f. if file_hash f = h then f\<lparr>file_refCount := file_refCount f - 1\<rparr> else f) fs)
   = map_option (\<lambda>f. f\<lparr>file_refCount := file_refCount f - 1\<rparr>) (find (\<lambda>f. file_hash f = h) fs)"
  by (induction fs) auto

lemma filter_map_dec:
  "filter (\<lambda>f. file_hash f \<noteq> h)
      (map (\<lambda>f. if file_hash f = h then f\<lparr>file_refCount := file_refCount f - 1\<rparr> else f) fs)
   = filter (\<lambda>f. file_hash f \<noteq> h) fs"
  by (induction fs) auto

lemma releaseAsset_result:
  assumes pk: "distinct (map asset_id (userAssets t))"
    and inv: "dedupInvariant t"
    and a: "a \<in> set (userAssets t)"
    and f: "find (\<lambda>f. file_hash f = asset_fileHash a) (files t) = Some file"
  shows "releaseAsset (asset_id a) (asset_fileHash a) t =
           (Inr (), if file_refCount file = 1
                    then releasedDrop (asset_id a) (asset_fileHash a) (file_path file) t
                    else releasedKeep (asset_id a) (asset_fileHash a) t)"
    and "1 \<le> file_refCount file"
proof -
  let ?h = "asset_fileHash a"
  have fin: "file \<in> set (files t)" and fh: "file_hash file = ?h"
    using f by (auto simp: find_Some_iff)
  have rc: "file_refCount file = int (refsOf t ?h)"
    using inv fin fh by (auto simp: dedupInvariant_def list_all_iff)
  show ge: "1 \<le> file_refCount file" using rc refsOf_pos[OF a] by simp
  let ?t1 = "t\<lparr>userAssets := filter (\<lambda>b. asset_id b \<noteq> asset_id a) (userAssets t)\<rparr>"
  have r1: "refsOf ?t1 ?h = refsOf t ?h - 1"
    using refsOf_after_delete[OF pk a, of ?h] by simp
  have none: "file_refCount file = 1 \<Longrightarrow> ?h \<notin> asset_fileHash ` set (userAssets ?t1)"
    using r1 rc refsOf_zero[of ?t1 ?h] by simp
  show "releaseAsset (asset_id a) (asset_fileHash a) t =
           (Inr (), if file_refCount file = 1
                    then releasedDrop (asset_id a) (asset_fileHash a) (file_path file) t
                    else releasedKeep (asset_id a) (asset_fileHash a) t)"
  proof (cases "file_refCount file = 1")
    case True
    have "?h \<notin> asset_fileHash ` set (filter (\<lambda>b. asset_id b \<noteq> asset_id a) (userAssets t))"
      using none[OF True] by simp
    then show ?thesis
      using True
      by (simp add: releaseAsset_def Let_def find_map_dec f releasedDrop_def filter_map_dec)
  next
    case False
    then have "\<not> file_refCount file - 1 \<le> 0" using ge by simp
    then show ?thesis
      using False
      by (simp add: releaseAsset_def Let_def find_map_dec f releasedKeep_def)
  qed
qed

lemma hash_map_dec:
  "map file_hash
      (map (\<lambda>f. if file_hash f = h then f\<lparr>file_refCount := file_refCount f - 1\<rparr> else f) fs)
   = map file_hash fs"
  by (induction fs) auto

lemma releasedKeep_inv:
  assumes sc: "storeConstraints t" and inv: "dedupInvariant t" and a: "a \<in> set (userAssets t)"
  shows "storeConstraints (releasedKeep (asset_id a) (asset_fileHash a) t)"
    and "dedupInvariant (releasedKeep (asset_id a) (asset_fileHash a) t)"
proof -
  let ?h = "asset_fileHash a"
  let ?t' = "releasedKeep (asset_id a) ?h t"
  have pk: "distinct (map asset_id (userAssets t))" using sc by (simp add: storeConstraints_def)
  have refs: "\<And>h. refsOf ?t' h = refsOf t h - (if ?h = h then 1 else 0)"
    using refsOf_after_delete[OF pk a] by (simp add: releasedKeep_def refsOf_def)
  have hashes: "file_hash ` set (files ?t') = file_hash ` set (files t)"
  proof -
    have fs: "files ?t' = map (\<lambda>f. if file_hash f = ?h
                          then f\<lparr>file_refCount := file_refCount f - 1\<rparr> else f) (files t)"
      by (simp add: releasedKeep_def)
    have "map file_hash (files ?t') = map file_hash (files t)"
      unfolding fs by (rule hash_map_dec)
    then have "set (map file_hash (files ?t')) = set (map file_hash (files t))" by (rule arg_cong)
    then show ?thesis by (simp only: set_map)
  qed
  show "storeConstraints ?t'"
    using sc unfolding storeConstraints_def hashes
    by (auto simp: releasedKeep_def list_all_iff distinct_map_filter)
  have pos: "0 < refsOf t ?h" by (rule refsOf_pos[OF a])
  show "dedupInvariant ?t'"
    unfolding dedupInvariant_def list_all_iff
  proof
    fix f' assume "f' \<in> set (files ?t')"
    then obtain g where g: "g \<in> set (files t)"
      and f': "f' = (if file_hash g = ?h then g\<lparr>file_refCount := file_refCount g - 1\<rparr> else g)"
      by (auto simp: releasedKeep_def)
    have rg: "file_refCount g = int (refsOf t (file_hash g))"
      using inv g by (simp add: dedupInvariant_def list_all_iff)
    show "file_refCount f' = int (refsOf ?t' (file_hash f'))"
      using f' rg pos by (auto simp: refs)
  qed
qed

lemma releasedDrop_inv:
  assumes sc: "storeConstraints t" and inv: "dedupInvariant t" and a: "a \<in> set (userAssets t)"
    and one: "refsOf t (asset_fileHash a) = 1"
  shows "storeConstraints (releasedDrop (asset_id a) (asset_fileHash a) p t)"
    and "dedupInvariant (releasedDrop (asset_id a) (asset_fileHash a) p t)"
proof -
  let ?h = "asset_fileHash a"
  let ?t' = "releasedDrop (asset_id a) ?h p t"
  have pk: "distinct (map asset_id (userAssets t))" using sc by (simp add: storeConstraints_def)
  have refs: "\<And>h. refsOf ?t' h = refsOf t h - (if ?h = h then 1 else 0)"
    using refsOf_after_delete[OF pk a] by (simp add: releasedDrop_def refsOf_def)
  have gone: "?h \<notin> asset_fileHash ` set (userAssets ?t')"
    using refs[of ?h] one refsOf_zero[of ?t' ?h] by simp
  have fk: "\<And>b. b \<in> set (userAssets ?t') \<Longrightarrow> asset_fileHash b \<in> file_hash ` set (files ?t')"
  proof -
    fix b assume b: "b \<in> set (userAssets ?t')"
    then have "b \<in> set (userAssets t)" by (simp add: releasedDrop_def)
    then have "asset_fileHash b \<in> file_hash ` set (files t)"
      using sc by (simp add: storeConstraints_def list_all_iff)
    moreover have "asset_fileHash b \<noteq> ?h" using gone b by (metis image_eqI)
    ultimately show "asset_fileHash b \<in> file_hash ` set (files ?t')"
      by (auto simp: releasedDrop_def)
  qed
  show "storeConstraints ?t'"
    unfolding storeConstraints_def list_all_iff
    using pk fk by (simp add: releasedDrop_def distinct_map_filter)
  show "dedupInvariant ?t'"
    unfolding dedupInvariant_def list_all_iff
  proof
    fix f' assume "f' \<in> set (files ?t')"
    then have g: "f' \<in> set (files t)" and ne: "file_hash f' \<noteq> ?h"
      by (auto simp: releasedDrop_def)
    have "file_refCount f' = int (refsOf t (file_hash f'))"
      using inv g by (simp add: dedupInvariant_def list_all_iff)
    then show "file_refCount f' = int (refsOf ?t' (file_hash f'))"
      using ne by (simp add: refs)
  qed
qed

lemma fileRow_exists:
  assumes sc: "storeConstraints t" and a: "a \<in> set (userAssets t)"
  shows "\<exists>file. find (\<lambda>f. file_hash f = asset_fileHash a) (files t) = Some file"
proof -
  have "asset_fileHash a \<in> file_hash ` set (files t)"
    using sc a by (simp add: storeConstraints_def list_all_iff)
  then have "find (\<lambda>f. file_hash f = asset_fileHash a) (files t) \<noteq> None"
    by (auto simp: find_None_iff)
  then show ?thesis by auto
qed

lemma releaseAsset_inv:
  assumes sc: "storeConstraints t" and inv: "dedupInvariant t" and a: "a \<in> set (userAssets t)"
  shows "\<exists>t'. releaseAsset (asset_id a) (asset_fileHash a) t = (Inr (), t')
            \<and> storeConstraints t' \<and> dedupInvariant t'
            \<and> userAssets t' = filter (\<lambda>b. asset_id b \<noteq> asset_id a) (userAssets t)
            \<and> folders t' = folders t \<and> userQuotas t' = userQuotas t
            \<and> rateLimitWindows t' = rateLimitWindows t"
proof -
  obtain row where f: "find (\<lambda>f. file_hash f = asset_fileHash a) (files t) = Some row"
    using fileRow_exists[OF sc a] by blast
  have pk: "distinct (map asset_id (userAssets t))" using sc by (simp add: storeConstraints_def)
  note res = releaseAsset_result[OF pk inv a f]
  have fin: "row \<in> set (files t)" and fh: "file_hash row = asset_fileHash a"
    using f by (auto simp: find_Some_iff)
  have rc: "file_refCount row = int (refsOf t (asset_fileHash a))"
    using inv fin fh by (auto simp: dedupInvariant_def list_all_iff)
  show ?thesis
  proof (cases "file_refCount row = 1")
    case True
    then have one: "refsOf t (asset_fileHash a) = 1" using rc by simp
    show ?thesis
      using res(1) True releasedDrop_inv[OF sc inv a one, of "file_path row"]
      by (simp add: releasedDrop_def)
  next
    case False
    show ?thesis
      using res(1) False releasedKeep_inv[OF sc inv a]
      by (simp add: releasedKeep_def)
  qed
qed

text \<open>
  C4. In a state where the reference counts are right, deleting an asset of the user
  (\<^verbatim>\<open>deleteAsset\<close>, and \<^verbatim>\<open>permanentlyDelete\<close> when the asset is trashed) succeeds and
  lowers the count of its files row by one. When the lowered count is 0 the files row is
  gone, the blob key is gone and the blob store was asked to delete that key once; when
  it is not 0 it is positive, the row stays with the lowered count, and the blob store is
  untouched.
\<close>

theorem purge_releases_one_reference:
  assumes sc: "storeConstraints s" and inv: "dedupInvariant s"
    and a: "a \<in> set (userAssets s)" and own: "asset_userId a = userId"
    and f: "find (\<lambda>f. file_hash f = asset_fileHash a) (files s) = Some row"
  shows "\<exists>s'. deleteAsset userId (asset_id a) s = (Inr (), s')
           \<and> (asset_deletedAt a \<noteq> None \<longrightarrow> permanentlyDelete userId (asset_id a) s = (Inr (), s'))
           \<and> (file_refCount row - 1 = 0 \<longrightarrow>
                 asset_fileHash a \<notin> file_hash ` set (files s')
               \<and> file_path row \<notin> set (blobs s')
               \<and> s3Deleted s' = file_path row # s3Deleted s)
           \<and> (file_refCount row - 1 \<noteq> 0 \<longrightarrow>
                 0 < file_refCount row - 1
               \<and> find (\<lambda>f. file_hash f = asset_fileHash a) (files s')
                    = Some (row\<lparr>file_refCount := file_refCount row - 1\<rparr>)
               \<and> blobs s' = blobs s \<and> s3Deleted s' = s3Deleted s)"
proof -
  have pk: "distinct (map asset_id (userAssets s))" using sc by (simp add: storeConstraints_def)
  define t where "t = (if file_refCount row = 1
                    then releasedDrop (asset_id a) (asset_fileHash a) (file_path row) s
                    else releasedKeep (asset_id a) (asset_fileHash a) s)"
  have rel: "releaseAsset (asset_id a) (asset_fileHash a) s = (Inr (), t)"
    and ge: "1 \<le> file_refCount row"
    using releaseAsset_result[OF pk inv a f] by (simp_all add: t_def)
  have tx: "transaction (releaseAsset (asset_id a) (asset_fileHash a)) s = (Inr (), t)"
    using rel by (rule transaction_ok)
  define s' where "s' = updateStorageUsage userId (- file_size row) t"
  have fa: "find (\<lambda>b. asset_id b = asset_id a \<and> asset_userId b = userId) (userAssets s) = Some a"
    using pk a own by (intro find_unique[where key = asset_id]) simp_all
  have d: "deleteAsset userId (asset_id a) s = (Inr (), s')"
    by (simp add: deleteAsset_def fa f tx s'_def)
  have p: "asset_deletedAt a \<noteq> None \<Longrightarrow> permanentlyDelete userId (asset_id a) s = (Inr (), s')"
  proof -
    assume tr: "asset_deletedAt a \<noteq> None"
    have "find (\<lambda>b. asset_id b = asset_id a \<and> asset_userId b = userId \<and> asset_deletedAt b \<noteq> None)
            (userAssets s) = Some a"
      using pk a own tr by (intro find_unique[where key = asset_id]) simp_all
    then show ?thesis by (simp add: permanentlyDelete_def f tx s'_def)
  qed
  have drop: "file_refCount row - 1 = 0 \<Longrightarrow>
                 asset_fileHash a \<notin> file_hash ` set (files s')
               \<and> file_path row \<notin> set (blobs s')
               \<and> s3Deleted s' = file_path row # s3Deleted s"
    by (auto simp: s'_def t_def releasedDrop_def)
  have keep: "file_refCount row - 1 \<noteq> 0 \<Longrightarrow>
                 0 < file_refCount row - 1
               \<and> find (\<lambda>f. file_hash f = asset_fileHash a) (files s')
                    = Some (row\<lparr>file_refCount := file_refCount row - 1\<rparr>)
               \<and> blobs s' = blobs s \<and> s3Deleted s' = s3Deleted s"
    using ge by (simp add: s'_def t_def releasedKeep_def find_map_dec f)
  show ?thesis using d p drop keep by blast
qed

text \<open>C4 in \<open>exampleStore\<close>: Bob's asset is the last reference of \<open>hashK\<close>, Alice's asset \<open>assetA\<close> is one of two references of \<open>hashH\<close>.\<close>

theorem purge_releases_one_reference_witness:
  "storeConstraints exampleStore \<and> dedupInvariant exampleStore
   \<and> (\<exists>s'. deleteAsset ''bob'' assetC exampleStore = (Inr (), s')
          \<and> permanentlyDelete ''bob'' assetC exampleStore = (Inr (), s')
          \<and> hashK \<notin> file_hash ` set (files s') \<and> hashK \<notin> set (blobs s')
          \<and> s3Deleted s' = [hashK])
   \<and> (\<exists>s'. deleteAsset ''alice'' assetA exampleStore = (Inr (), s')
          \<and> find (\<lambda>f. file_hash f = hashH) (files s') = Some (fileH\<lparr>file_refCount := 1\<rparr>)
          \<and> blobs s' = [hashH, hashK] \<and> s3Deleted s' = [])"
proof -
  have ne: "hashH \<noteq> hashK" by (simp add: hashH_def hashK_def)
  have sc: "storeConstraints exampleStore"
    by (simp add: storeConstraints_def exampleStore_def rowA_def rowB_def rowC_def
        fileH_def fileK_def assetA_def assetB_def assetC_def)
  have inv: "dedupInvariant exampleStore"
    using ne by (simp add: dedupInvariant_def refsOf_def exampleStore_def rowA_def rowB_def
        rowC_def fileH_def fileK_def)
  have a: "rowA \<in> set (userAssets exampleStore)" and c: "rowC \<in> set (userAssets exampleStore)"
    by (simp_all add: exampleStore_def)
  have oa: "asset_userId rowA = ''alice''" and oc: "asset_userId rowC = ''bob''"
    by (simp_all add: rowA_def rowC_def)
  have fa: "find (\<lambda>f. file_hash f = asset_fileHash rowA) (files exampleStore) = Some fileH"
    by (simp add: exampleStore_def rowA_def fileH_def)
  have fc: "find (\<lambda>f. file_hash f = asset_fileHash rowC) (files exampleStore) = Some fileK"
    using ne by (simp add: exampleStore_def rowC_def fileH_def fileK_def)
  have va: "asset_id rowA = assetA" "asset_fileHash rowA = hashH" "file_refCount fileH = 2"
    by (simp_all add: rowA_def fileH_def)
  have vc: "asset_id rowC = assetC" "asset_fileHash rowC = hashK" "file_refCount fileK = 1"
    "file_path fileK = hashK" "asset_deletedAt rowC = Some 7"
    by (simp_all add: rowC_def fileK_def)
  have ex: "blobs exampleStore = [hashH, hashK]" "s3Deleted exampleStore = []"
    by (simp_all add: exampleStore_def)
  have C: "\<exists>s'. deleteAsset ''bob'' assetC exampleStore = (Inr (), s')
          \<and> permanentlyDelete ''bob'' assetC exampleStore = (Inr (), s')
          \<and> hashK \<notin> file_hash ` set (files s') \<and> hashK \<notin> set (blobs s')
          \<and> s3Deleted s' = [hashK]"
    using purge_releases_one_reference [OF sc inv c oc fc] by (simp add: vc ex)
  have A: "\<exists>s'. deleteAsset ''alice'' assetA exampleStore = (Inr (), s')
          \<and> find (\<lambda>f. file_hash f = hashH) (files s') = Some (fileH\<lparr>file_refCount := 1\<rparr>)
          \<and> blobs s' = [hashH, hashK] \<and> s3Deleted s' = []"
    using purge_releases_one_reference [OF sc inv a oa fa] by (auto simp: va ex)
  show ?thesis using sc inv C A by blast
qed

section \<open>Numbers and the bigint columns\<close>

lemma roundHalfEven_of_int [simp]: "roundHalfEven (of_int m) = m"
  by (simp add: roundHalfEven_def)

lemma scale2_up: "0 \<le> e \<Longrightarrow> scale2 x e = x * 2 ^ nat e"
  by (simp add: scale2_def)

lemma scale2_down: "e \<le> 0 \<Longrightarrow> scale2 x e = x / 2 ^ nat (- e)"
  by (auto simp: scale2_def)

lemma exponentOf_of_int:
  assumes "n \<noteq> 0"
  shows "exponentOf (of_int n) = bitlen \<bar>n\<bar> - 1"
proof -
  have "(1::rat) \<le> \<bar>of_int n\<bar>" using assms
    by (metis of_int_abs of_int_1_le_iff zero_less_abs_iff int_one_le_iff_zero_less)
  moreover have "\<lfloor>\<bar>of_int n :: rat\<bar>\<rfloor> = \<bar>n\<bar>"
    by (metis of_int_abs floor_of_int)
  ultimately show ?thesis by (simp add: exponentOf_def)
qed

lemma toDouble_unfold:
  "x \<noteq> 0 \<Longrightarrow> exponentOf x - 52 = e \<Longrightarrow> scale2 x (- e) = of_int m \<Longrightarrow>
     scale2 (of_int m) e = y \<Longrightarrow> toDouble x = y"
  by (simp add: toDouble_def Let_def)

text \<open>Every integer of magnitude up to \<open>2 ^ 53\<close> is a double.\<close>

lemma toDouble_of_int:
  assumes "\<bar>n\<bar> \<le> 2 ^ 53"
  shows "toDouble (of_int n) = of_int n"
proof (cases "n = 0")
  case True
  then show ?thesis by (simp add: toDouble_def)
next
  case False
  define b where "b = bitlen \<bar>n\<bar>"
  have pos: "0 < \<bar>n\<bar>" using False by simp
  have lo: "2 ^ nat (b - 1) \<le> \<bar>n\<bar>" and hi: "\<bar>n\<bar> < 2 ^ nat b"
    using bitlen_bounds[OF pos] by (simp_all add: b_def)
  have "\<bar>n\<bar> < 2 ^ nat 54" using assms by simp
  then have b54: "b \<le> 54" unfolding b_def by (simp add: bitlen_le_iff_power)
  have e: "exponentOf (of_int n) - 52 = b - 53"
    using exponentOf_of_int[OF False] by (simp add: b_def)
  have nz: "(of_int n :: rat) \<noteq> 0" using False by simp
  show ?thesis
  proof (cases "b \<le> 53")
    case True
    define k where "k = nat (53 - b)"
    have k: "nat (- (b - 53)) = k" "nat (53 - b) = k" by (simp_all add: k_def)
    have "scale2 (of_int n) (- (b - 53)) = of_int n * 2 ^ k"
      using True by (simp add: scale2_up k)
    also have "\<dots> = of_int (n * 2 ^ k)" by simp
    finally have s: "scale2 (of_int n) (- (b - 53)) = of_int (n * 2 ^ k)" .
    have "scale2 (of_int (n * 2 ^ k)) (b - 53) = of_int (n * 2 ^ k) / 2 ^ k"
      using True scale2_down[of "b - 53" "of_int (n * 2 ^ k)"] by (simp only: k)
    also have "\<dots> = of_int n" by simp
    finally have t: "scale2 (of_int (n * 2 ^ k)) (b - 53) = of_int n" .
    show ?thesis using nz e s t by (rule toDouble_unfold)
  next
    case False
    then have b: "b = 54" using b54 by simp
    have "2 ^ 53 \<le> \<bar>n\<bar>" using lo by (simp add: b)
    then have n: "\<bar>n\<bar> = 2 ^ 53" using assms by simp
    define m where "m = n div 2"
    have "n = 2 ^ 53 \<or> n = - (2 ^ 53)" using n by (auto simp: abs_if split: if_splits)
    then have m: "n = 2 * m" unfolding m_def by auto
    have e1: "exponentOf (of_int n) - 52 = 1" using e b by simp
    have s: "scale2 (of_int n) (- 1) = of_int m"
      by (simp add: scale2_def m)
    have t: "scale2 (of_int m) 1 = of_int n"
      by (simp add: scale2_def m)
    show ?thesis using nz e1 s t by (rule toDouble_unfold)
  qed
qed

lemma toNumber_safe: "\<bar>n\<bar> \<le> 2 ^ 53 \<Longrightarrow> toNumber n = of_int n"
  by (simp add: toNumber_def toDouble_of_int)

lemma bigintOfNumber_of_int:
  "\<bar>n\<bar> \<le> 2 ^ 53 \<Longrightarrow> bigintOfNumber (of_int n) = Some n"
  by (auto simp: bigintOfNumber_def printedInteger_def BIGINT_MIN_def BIGINT_MAX_def)

text \<open>On integers up to \<open>2 ^ 53\<close> the test of the quota is the test on the integers.\<close>

lemma quota_test_exact:
  assumes "\<bar>used\<bar> \<le> 2 ^ 53" "\<bar>limit\<bar> \<le> 2 ^ 53" "\<bar>used + n\<bar> \<le> 2 ^ 53"
  shows "(toDouble (toNumber used + of_int n) > toNumber limit) = (used + n > limit)"
proof -
  have "toDouble (toNumber used + of_int n) = toDouble (of_int (used + n))"
    using assms(1) by (simp add: toNumber_safe)
  also have "\<dots> = of_int (used + n)" using assms(3) by (rule toDouble_of_int)
  finally show ?thesis using assms(2) by (simp add: toNumber_safe del: of_int_add)
qed

text \<open>
  Above \<open>2 ^ 53\<close> the sum of two numbers is rounded: with \<open>2 ^ 53\<close> bytes used and a limit
  of \<open>2 ^ 53\<close> bytes, one more byte passes the test of the quota.
\<close>

lemma quota_test_rounds:
  "toDouble (toNumber 9007199254740992 + 1) = 9007199254740992
   \<and> \<not> toDouble (toNumber 9007199254740992 + 1) > toNumber 9007199254740992"
  by code_simp

section \<open>Uploading\<close>

lemma storageUsed_update:
  "storageUsed (updateStorageUsage u d s) v =
     (if v = u then max 0 (storageUsed s u + d) else storageUsed s v)"
proof (cases "find (\<lambda>q. quota_userId q = u) (userQuotas s)")
  case None
  then have no: "\<not> list_ex (\<lambda>q. quota_userId q = u) (userQuotas s)"
    by (auto simp: find_None_iff list_ex_iff)
  have "find (\<lambda>q. quota_userId q = v) (userQuotas s @ [(defaultQuota u)\<lparr>quota_storageUsed := max 0 d\<rparr>])
      = (case find (\<lambda>q. quota_userId q = v) (userQuotas s) of
           None \<Rightarrow> if v = u then Some ((defaultQuota u)\<lparr>quota_storageUsed := max 0 d\<rparr>) else None
         | Some q \<Rightarrow> Some q)"
    by (auto simp: find_snoc defaultQuota_def split: option.split)
  then show ?thesis
    using None no by (auto simp: storageUsed_def updateStorageUsage_def split: option.split)
next
  case (Some q)
  then have yes: "list_ex (\<lambda>q. quota_userId q = u) (userQuotas s)"
    by (auto simp: find_Some_iff list_ex_iff)
  let ?g = "\<lambda>q. if quota_userId q = u
                  then q\<lparr>quota_storageUsed := max 0 (quota_storageUsed q + d)\<rparr> else q"
  have "find (\<lambda>q. quota_userId q = v) (map ?g (userQuotas s))
          = map_option ?g (find (\<lambda>q. quota_userId q = v) (userQuotas s))"
    by (rule find_map_stable) simp
  then have fm: "find (\<lambda>q. quota_userId q = v) (userQuotas (updateStorageUsage u d s))
          = map_option ?g (find (\<lambda>q. quota_userId q = v) (userQuotas s))"
    using yes by (simp add: updateStorageUsage_def)
  have qu: "quota_userId q = u" using Some by (auto simp: find_Some_iff)
  show ?thesis
  proof (cases "v = u")
    case True
    then show ?thesis using Some qu fm by (simp add: storageUsed_def)
  next
    case False
    show ?thesis
    proof (cases "find (\<lambda>q. quota_userId q = v) (userQuotas s)")
      case None
      then show ?thesis using False fm by (simp add: storageUsed_def)
    next
      case (Some q')
      then have "quota_userId q' = v" by (auto simp: find_Some_iff)
      then show ?thesis using False Some fm by (simp add: storageUsed_def)
    qed
  qed
qed

lemma checkRateLimit_frame:
  assumes "checkRateLimit u now wid s = (r, s1)"
  shows "files s1 = files s" "userAssets s1 = userAssets s" "folders s1 = folders s"
    "userQuotas s1 = userQuotas s" "blobs s1 = blobs s" "s3Deleted s1 = s3Deleted s"
  using assms
  by (auto simp: checkRateLimit_def Let_def split: option.splits if_splits)

lemma checkRateLimit_refused:
  "checkRateLimit u now wid s = (Inl e, s1) \<Longrightarrow> s1 = s"
  by (auto simp: checkRateLimit_def Let_def split: option.splits if_splits)

lemma rateLimited_refused:
  "checkRateLimit u now wid s = (Inl e, s1) \<Longrightarrow> rateLimitedProcedure u now wid handler s = (Inl e, s)"
  using checkRateLimit_refused[of u now wid s e s1] by (simp add: rateLimitedProcedure_def)

lemma rateLimited_admitted:
  "checkRateLimit u now wid s = (Inr (), s1) \<Longrightarrow> rateLimitedProcedure u now wid handler s = handler s1"
  by (simp add: rateLimitedProcedure_def)

lemma storageUsed_cong:
  "userQuotas s1 = userQuotas s \<Longrightarrow> storageUsed s1 v = storageUsed s v"
  by (simp add: storageUsed_def)

lemma storageLimit_cong:
  "userQuotas s1 = userQuotas s \<Longrightarrow> storageLimit s1 v = storageLimit s v"
  by (simp add: storageLimit_def)

lemma checkStorageQuota_result:
  "\<exists>s1. checkStorageQuota u sz s =
          (if toDouble (toNumber (storageUsed s u) + sz) > toNumber (storageLimit s u)
           then Inl PAYLOAD_TOO_LARGE else Inr (), s1)
        \<and> files s1 = files s \<and> userAssets s1 = userAssets s \<and> folders s1 = folders s
        \<and> blobs s1 = blobs s \<and> s3Deleted s1 = s3Deleted s
        \<and> rateLimitWindows s1 = rateLimitWindows s
        \<and> (\<forall>v. storageUsed s1 v = storageUsed s v)"
proof (cases "find (\<lambda>q. quota_userId q = u) (userQuotas s)")
  case None
  have "\<And>v. storageUsed (s\<lparr>userQuotas := userQuotas s @ [defaultQuota u]\<rparr>) v = storageUsed s v"
    using None by (auto simp: storageUsed_def find_snoc defaultQuota_def split: option.split)
  then show ?thesis
    using None
    by (simp add: checkStorageQuota_def Let_def storageUsed_def storageLimit_def defaultQuota_def)
next
  case (Some q)
  then show ?thesis
    by (simp add: checkStorageQuota_def Let_def storageUsed_def storageLimit_def)
qed

lemma insertAsset_result:
  "insertAsset row t = (Inl INTERNAL_SERVER_ERROR, t)
   \<or> insertAsset row t = (Inr (), t\<lparr>userAssets := userAssets t @ [row]\<rparr>)"
  by (simp add: insertAsset_def)

lemma upsertFile_frame [simp]:
  "userAssets (upsertFile h sz t) = userAssets t" "userQuotas (upsertFile h sz t) = userQuotas t"
  "blobs (upsertFile h sz t) = blobs t" "s3Deleted (upsertFile h sz t) = s3Deleted t"
  "folders (upsertFile h sz t) = folders t"
  by (simp_all add: upsertFile_def incrementRefCount_def)

lemma incrementRefCount_frame [simp]:
  "userAssets (incrementRefCount h t) = userAssets t" "userQuotas (incrementRefCount h t) = userQuotas t"
  "blobs (incrementRefCount h t) = blobs t" "s3Deleted (incrementRefCount h t) = s3Deleted t"
  "folders (incrementRefCount h t) = folders t"
  by (simp_all add: incrementRefCount_def)

lemma files_upsert_cong:
  "files t = files s \<Longrightarrow> files (upsertFile h sz t) = files (upsertFile h sz s)"
  by (simp add: upsertFile_def incrementRefCount_def)

lemma files_increment_cong:
  "files t = files s \<Longrightarrow> files (incrementRefCount h t) = files (incrementRefCount h s)"
  by (simp add: incrementRefCount_def)

text \<open>The two outcomes of the update of the usage by a declared size.\<close>

lemma updateStorageUsageChecked_cases:
  obtains (refused) "updateStorageUsageChecked u sz s = (Inl INTERNAL_SERVER_ERROR, s)"
      "\<forall>d. bigintOfNumber sz = Some d \<longrightarrow>
          storageUsed s u + d < BIGINT_MIN \<or> BIGINT_MAX < storageUsed s u + d"
  | (accepted) d where "bigintOfNumber sz = Some d"
      "updateStorageUsageChecked u sz s = (Inr (), updateStorageUsage u d s)"
proof (cases "bigintOfNumber sz")
  case None
  then show ?thesis using refused by (simp add: updateStorageUsageChecked_def)
next
  case (Some d)
  show ?thesis
  proof (cases "storageUsed s u + d < BIGINT_MIN \<or> BIGINT_MAX < storageUsed s u + d")
    case True
    then show ?thesis using Some refused by (simp add: updateStorageUsageChecked_def)
  next
    case False
    then show ?thesis using Some accepted by (simp add: updateStorageUsageChecked_def)
  qed
qed

text \<open>The outcomes of \<^verbatim>\<open>confirmUpload\<close>.\<close>

lemma confirmUpload_result:
  "confirmUpload u aid fn sz h fo s =
     (if \<not> uploadInput fn sz h fo then (Inl BAD_REQUEST, s)
      else if h \<notin> set (blobs s) then (Inl NOT_FOUND, s)
      else (case bigintOfNumber sz of
              None \<Rightarrow> (Inl INTERNAL_SERVER_ERROR, s)
            | Some d \<Rightarrow>
                if fst (insertAsset (newAsset aid fn u fo h) (upsertFile h d s)) = Inr ()
                then updateStorageUsageChecked u sz
                       ((upsertFile h d s)\<lparr>userAssets := userAssets s @ [newAsset aid fn u fo h]\<rparr>)
                else (Inl INTERNAL_SERVER_ERROR, s)))"
proof (cases "bigintOfNumber sz")
  case None
  then show ?thesis by (simp add: confirmUpload_def transaction_def)
next
  case (Some d)
  show ?thesis
    using insertAsset_result[of "newAsset aid fn u fo h" "upsertFile h d s"] Some
    by (auto simp: confirmUpload_def transaction_def newAsset_def)
qed

lemma confirmUpload_failure:
  assumes run: "confirmUpload u aid fn sz h fo s = (Inl e, s')"
    and acc: "bigintOfNumber sz = Some d" "BIGINT_MIN \<le> storageUsed s u + d"
      "storageUsed s u + d \<le> BIGINT_MAX"
  shows "s' = s"
proof -
  let ?t = "(upsertFile h d s)\<lparr>userAssets := userAssets s @ [newAsset aid fn u fo h]\<rparr>"
  have "storageUsed ?t u = storageUsed s u" by (rule storageUsed_cong) simp
  then have "updateStorageUsageChecked u sz ?t = (Inr (), updateStorageUsage u d ?t)"
    using acc by (simp add: updateStorageUsageChecked_def)
  then show ?thesis
    using run acc(1) by (simp add: confirmUpload_result split: if_splits)
qed

lemma confirmUpload_success:
  assumes "confirmUpload u aid fn sz h fo s = (Inr (), s')"
  shows "\<exists>d. bigintOfNumber sz = Some d \<and> h \<in> set (blobs s)
           \<and> files s' = files (upsertFile h d s)
           \<and> userAssets s' = userAssets s @ [newAsset aid fn u fo h]
           \<and> storageUsed s' u = max 0 (storageUsed s u + d)"
proof -
  obtain d where d: "bigintOfNumber sz = Some d"
    using assms by (cases "bigintOfNumber sz") (simp_all add: confirmUpload_result split: if_splits)
  let ?t = "(upsertFile h d s)\<lparr>userAssets := userAssets s @ [newAsset aid fn u fo h]\<rparr>"
  have b: "h \<in> set (blobs s)"
    and c: "updateStorageUsageChecked u sz ?t = (Inr (), s')"
    using assms d by (simp_all add: confirmUpload_result split: if_splits)
  have s': "s' = updateStorageUsage u d ?t"
    using c d by (cases rule: updateStorageUsageChecked_cases[of u sz ?t]) simp_all
  have "storageUsed ?t u = storageUsed s u" by (rule storageUsed_cong) simp
  then have "storageUsed s' u = max 0 (storageUsed s u + d)"
    by (simp add: s' storageUsed_update)
  then show ?thesis using d b by (simp add: s')
qed

text \<open>The outcomes of \<^verbatim>\<open>getUploadPresignedUrl\<close> on an input that its parser accepts.\<close>

lemma presigned_outcome:
  assumes inp: "uploadInput fn sz h fo"
  obtains (quota) s1 where
      "toDouble (toNumber (storageUsed s u) + sz) > toNumber (storageLimit s u)"
      "getUploadPresignedUrl u aid fn sz h fo s = (Inl PAYLOAD_TOO_LARGE, s1)"
      "files s1 = files s" "userAssets s1 = userAssets s" "\<forall>v. storageUsed s1 v = storageUsed s v"
  | (fresh) s1 where "getUploadPresignedUrl u aid fn sz h fo s = (Inr (Presigned h), s1)"
      "files s1 = files s" "userAssets s1 = userAssets s" "\<forall>v. storageUsed s1 v = storageUsed s v"
  | (refused) s1 where "getUploadPresignedUrl u aid fn sz h fo s = (Inl INTERNAL_SERVER_ERROR, s1)"
      "files s1 = files s" "userAssets s1 = userAssets s" "\<forall>v. storageUsed s1 v = storageUsed s v"
  | (committed) s1 where
      "\<not> toDouble (toNumber (storageUsed s u) + sz) > toNumber (storageLimit s u)"
      "getUploadPresignedUrl u aid fn sz h fo s =
         (case updateStorageUsageChecked u sz
                 (incrementRefCount h (s1\<lparr>userAssets := userAssets s @ [newAsset aid fn u fo h]\<rparr>)) of
            (Inl e, s3) \<Rightarrow> (Inl e, s3)
          | (Inr _, s3) \<Rightarrow> (Inr Deduplicated, s3))"
      "files s1 = files s" "\<forall>v. storageUsed s1 v = storageUsed s v"
proof -
  obtain s1 where q: "checkStorageQuota u sz s =
          (if toDouble (toNumber (storageUsed s u) + sz) > toNumber (storageLimit s u)
           then Inl PAYLOAD_TOO_LARGE else Inr (), s1)"
    and fr: "files s1 = files s" "userAssets s1 = userAssets s" "blobs s1 = blobs s"
      "s3Deleted s1 = s3Deleted s" "\<forall>v. storageUsed s1 v = storageUsed s v"
    using checkStorageQuota_result[of u sz s] by blast
  show ?thesis
  proof (cases "toDouble (toNumber (storageUsed s u) + sz) > toNumber (storageLimit s u)")
    case True
    then have "getUploadPresignedUrl u aid fn sz h fo s = (Inl PAYLOAD_TOO_LARGE, s1)"
      using q inp by (simp add: getUploadPresignedUrl_def)
    then show ?thesis using True fr quota by blast
  next
    case False
    then have q': "checkStorageQuota u sz s = (Inr (), s1)" using q by simp
    show ?thesis
    proof (cases "find (\<lambda>f. file_hash f = h) (files s1)")
      case None
      then have "getUploadPresignedUrl u aid fn sz h fo s = (Inr (Presigned h), s1)"
        using q' inp by (simp add: getUploadPresignedUrl_def)
      then show ?thesis using fr fresh by blast
    next
      case (Some existingFile)
      then have eh: "file_hash existingFile = h" by (auto simp: find_Some_iff)
      consider "insertAsset (newAsset aid fn u fo h) s1 = (Inl INTERNAL_SERVER_ERROR, s1)"
        | "insertAsset (newAsset aid fn u fo h) s1
             = (Inr (), s1\<lparr>userAssets := userAssets s1 @ [newAsset aid fn u fo h]\<rparr>)"
        using insertAsset_result[of "newAsset aid fn u fo h" s1] by blast
      then show ?thesis
      proof cases
        case 1
        then have "getUploadPresignedUrl u aid fn sz h fo s = (Inl INTERNAL_SERVER_ERROR, s1)"
          using q' Some eh inp
          by (simp add: getUploadPresignedUrl_def transaction_def newAsset_def)
        then show ?thesis using fr refused by blast
      next
        case 2
        then have "getUploadPresignedUrl u aid fn sz h fo s =
         (case updateStorageUsageChecked u sz
                 (incrementRefCount h (s1\<lparr>userAssets := userAssets s @ [newAsset aid fn u fo h]\<rparr>)) of
            (Inl e, s3) \<Rightarrow> (Inl e, s3)
          | (Inr _, s3) \<Rightarrow> (Inr Deduplicated, s3))"
          using q' Some eh fr(2) inp
          by (simp add: getUploadPresignedUrl_def transaction_def newAsset_def)
        then show ?thesis using False fr committed by blast
      qed
    qed
  qed
qed

lemma presigned_failure:
  assumes run: "getUploadPresignedUrl u aid fn sz h fo s = (Inl e, s')"
    and acc: "bigintOfNumber sz = Some d" "BIGINT_MIN \<le> storageUsed s u + d"
      "storageUsed s u + d \<le> BIGINT_MAX"
  shows "files s' = files s \<and> userAssets s' = userAssets s \<and> (\<forall>v. storageUsed s' v = storageUsed s v)"
proof (cases "uploadInput fn sz h fo")
  case False
  then have "s' = s" using run by (simp add: getUploadPresignedUrl_def)
  then show ?thesis by simp
next
  case True
  from True show ?thesis
  proof (cases rule: presigned_outcome[where s = s and u = u and aid = aid])
    case (quota s1)
    then show ?thesis using run by simp
  next
    case (fresh s1)
    then show ?thesis using run by simp
  next
    case (refused s1)
    then show ?thesis using run by simp
  next
    case (committed s1)
    let ?t = "incrementRefCount h (s1\<lparr>userAssets := userAssets s @ [newAsset aid fn u fo h]\<rparr>)"
    have "storageUsed ?t u = storageUsed s1 u" by (rule storageUsed_cong) simp
    then have "storageUsed ?t u = storageUsed s u" using committed(4) by simp
    then have "updateStorageUsageChecked u sz ?t = (Inr (), updateStorageUsage u d ?t)"
      using acc by (simp add: updateStorageUsageChecked_def)
    then show ?thesis using run committed(2) by simp
  qed
qed

lemma presigned_linked:
  assumes run: "getUploadPresignedUrl u aid fn sz h fo s = (Inr Deduplicated, s')"
  shows "\<exists>d. bigintOfNumber sz = Some d
           \<and> files s' = files (incrementRefCount h s)
           \<and> userAssets s' = userAssets s @ [newAsset aid fn u fo h]
           \<and> storageUsed s' u = max 0 (storageUsed s u + d)"
proof (cases "uploadInput fn sz h fo")
  case False
  then show ?thesis using run by (simp add: getUploadPresignedUrl_def)
next
  case True
  from True show ?thesis
  proof (cases rule: presigned_outcome[where s = s and u = u and aid = aid])
    case (quota s1)
    then show ?thesis using run by simp
  next
    case (fresh s1)
    then show ?thesis using run by simp
  next
    case (refused s1)
    then show ?thesis using run by simp
  next
    case (committed s1)
    let ?t = "incrementRefCount h (s1\<lparr>userAssets := userAssets s @ [newAsset aid fn u fo h]\<rparr>)"
    show ?thesis
    proof (cases rule: updateStorageUsageChecked_cases[of u sz ?t])
      case refused
      then show ?thesis using run committed(2) by simp
    next
      case (accepted d)
      then have s': "s' = updateStorageUsage u d ?t" using run committed(2) by simp
      have f: "files s' = files (incrementRefCount h s)"
        using committed(3) by (simp add: s' incrementRefCount_def)
      have a: "userAssets s' = userAssets s @ [newAsset aid fn u fo h]" by (simp add: s')
      have "storageUsed ?t u = storageUsed s1 u" by (rule storageUsed_cong) simp
      then have "storageUsed s' u = max 0 (storageUsed s u + d)"
        using committed(4) by (simp add: s' storageUsed_update)
      then show ?thesis using accepted(1) f a by blast
    qed
  qed
qed

lemma toDouble_numeral: "numeral k \<le> (2 ^ 53 :: int) \<Longrightarrow> toDouble (numeral k) = numeral k"
  using toDouble_of_int[of "numeral k"] by simp

lemma toNumber_numeral: "numeral k \<le> (2 ^ 53 :: int) \<Longrightarrow> toNumber (numeral k) = numeral k"
  using toNumber_safe[of "numeral k"] by simp

lemma toNumber_zero: "toNumber 0 = 0"
  by (simp add: toNumber_def toDouble_def)

lemmas number_defs =
  bigintOfNumber_def printedInteger_def BIGINT_MIN_def BIGINT_MAX_def
  toDouble_numeral toNumber_numeral toNumber_zero

lemmas input_defs = uploadInput_def isUuid_def hexDigit_def updateStorageUsageChecked_def

text \<open>
  C3, as the code has it. Both upload procedures run the rate limit first; when it
  refuses, nothing changes. The parser of the input comes next: an input that it refuses
  is answered with \<^verbatim>\<open>BAD_REQUEST\<close>, in the state that the rate limit left. On an input
  that the parser accepts, \<^verbatim>\<open>getUploadPresignedUrl\<close> checks the quota on the declared
  size (where the byte counts and their sum have a magnitude of at most \<open>2 ^ 53\<close>, the sum
  of numbers is exact, and a size that takes the usage above the limit is refused with
  \<^verbatim>\<open>PAYLOAD_TOO_LARGE\<close>), and \<^verbatim>\<open>confirmUpload\<close> checks that the blob exists. Whenever
  one of the two procedures fails on a declared size that the store reads as a \<^verbatim>\<open>bigint\<close>
  \<open>d\<close> with \<open>storageUsed + d\<close> in the range of \<^verbatim>\<open>bigint\<close>, the files table, the asset
  table and the bytes charged to every user are what they were. A deduplicated link
  adds 1 to the reference count, appends the asset row and charges the declared size; a
  confirmed upload (which needs the blob) upserts the files row, appends the asset row and
  charges the declared size.
\<close>

theorem upload_steps_and_rollback:
  "(checkRateLimit u now wid s = (Inl e, s0) \<longrightarrow>
       rateLimitedProcedure u now wid (getUploadPresignedUrl u aid fn sz h fo) s = (Inl e, s)
     \<and> rateLimitedProcedure u now wid (confirmUpload u aid fn sz h fo) s = (Inl e, s))
   \<and> (checkRateLimit u now wid s = (Inr (), s0) \<and> \<not> uploadInput fn sz h fo \<longrightarrow>
       rateLimitedProcedure u now wid (getUploadPresignedUrl u aid fn sz h fo) s
         = (Inl BAD_REQUEST, s0)
     \<and> rateLimitedProcedure u now wid (confirmUpload u aid fn sz h fo) s = (Inl BAD_REQUEST, s0))
   \<and> (checkRateLimit u now wid s = (Inr (), s0) \<and> uploadInput fn sz h fo \<longrightarrow>
         (sz = of_int n \<and> \<bar>storageUsed s u\<bar> \<le> 2 ^ 53 \<and> \<bar>storageLimit s u\<bar> \<le> 2 ^ 53
            \<and> \<bar>storageUsed s u + n\<bar> \<le> 2 ^ 53 \<and> storageLimit s u < storageUsed s u + n \<longrightarrow>
            fst (rateLimitedProcedure u now wid (getUploadPresignedUrl u aid fn sz h fo) s)
              = Inl PAYLOAD_TOO_LARGE)
       \<and> (h \<notin> set (blobs s) \<longrightarrow>
            rateLimitedProcedure u now wid (confirmUpload u aid fn sz h fo) s = (Inl NOT_FOUND, s0)))
   \<and> ((rateLimitedProcedure u now wid (getUploadPresignedUrl u aid fn sz h fo) s = (Inl e, s')
         \<or> rateLimitedProcedure u now wid (confirmUpload u aid fn sz h fo) s = (Inl e, s'))
        \<and> bigintOfNumber sz = Some d
        \<and> BIGINT_MIN \<le> storageUsed s u + d \<and> storageUsed s u + d \<le> BIGINT_MAX \<longrightarrow>
         files s' = files s \<and> userAssets s' = userAssets s
       \<and> (\<forall>v. storageUsed s' v = storageUsed s v))
   \<and> (rateLimitedProcedure u now wid (getUploadPresignedUrl u aid fn sz h fo) s
          = (Inr Deduplicated, s') \<longrightarrow>
         (\<exists>d. bigintOfNumber sz = Some d
            \<and> files s' = files (incrementRefCount h s)
            \<and> userAssets s' = userAssets s @ [newAsset aid fn u fo h]
            \<and> storageUsed s' u = max 0 (storageUsed s u + d)))
   \<and> (rateLimitedProcedure u now wid (confirmUpload u aid fn sz h fo) s = (Inr (), s') \<longrightarrow>
         (\<exists>d. bigintOfNumber sz = Some d
            \<and> h \<in> set (blobs s)
            \<and> files s' = files (upsertFile h d s)
            \<and> userAssets s' = userAssets s @ [newAsset aid fn u fo h]
            \<and> storageUsed s' u = max 0 (storageUsed s u + d)))"
proof (intro conjI impI)
  assume r: "checkRateLimit u now wid s = (Inl e, s0)"
  show "rateLimitedProcedure u now wid (getUploadPresignedUrl u aid fn sz h fo) s = (Inl e, s)"
    using r by (rule rateLimited_refused)
  show "rateLimitedProcedure u now wid (confirmUpload u aid fn sz h fo) s = (Inl e, s)"
    using r by (rule rateLimited_refused)
next
  assume a: "checkRateLimit u now wid s = (Inr (), s0) \<and> \<not> uploadInput fn sz h fo"
  then have r: "checkRateLimit u now wid s = (Inr (), s0)" and i: "\<not> uploadInput fn sz h fo"
    by simp_all
  show "rateLimitedProcedure u now wid (getUploadPresignedUrl u aid fn sz h fo) s
         = (Inl BAD_REQUEST, s0)"
    using i by (simp add: rateLimited_admitted[OF r] getUploadPresignedUrl_def)
  show "rateLimitedProcedure u now wid (confirmUpload u aid fn sz h fo) s = (Inl BAD_REQUEST, s0)"
    using i by (simp add: rateLimited_admitted[OF r] confirmUpload_def)
next
  assume a: "checkRateLimit u now wid s = (Inr (), s0) \<and> uploadInput fn sz h fo"
    and q: "sz = of_int n \<and> \<bar>storageUsed s u\<bar> \<le> 2 ^ 53 \<and> \<bar>storageLimit s u\<bar> \<le> 2 ^ 53
            \<and> \<bar>storageUsed s u + n\<bar> \<le> 2 ^ 53 \<and> storageLimit s u < storageUsed s u + n"
  have r: "checkRateLimit u now wid s = (Inr (), s0)" and i: "uploadInput fn sz h fo"
    using a by simp_all
  have uq: "userQuotas s0 = userQuotas s" using r by (rule checkRateLimit_frame)
  have u0: "storageUsed s0 u = storageUsed s u" and l0: "storageLimit s0 u = storageLimit s u"
    using uq by (simp_all add: storageUsed_def storageLimit_def)
  have "toDouble (toNumber (storageUsed s0 u) + sz) > toNumber (storageLimit s0 u)"
    using q quota_test_exact[of "storageUsed s u" "storageLimit s u" n] by (simp add: u0 l0)
  then have "fst (getUploadPresignedUrl u aid fn sz h fo s0) = Inl PAYLOAD_TOO_LARGE"
    using i checkStorageQuota_result[of u sz s0] by (auto simp: getUploadPresignedUrl_def)
  then show "fst (rateLimitedProcedure u now wid (getUploadPresignedUrl u aid fn sz h fo) s)
              = Inl PAYLOAD_TOO_LARGE"
    by (simp add: rateLimited_admitted[OF r])
next
  assume a: "checkRateLimit u now wid s = (Inr (), s0) \<and> uploadInput fn sz h fo"
    and b: "h \<notin> set (blobs s)"
  have r: "checkRateLimit u now wid s = (Inr (), s0)" and i: "uploadInput fn sz h fo"
    using a by simp_all
  have "blobs s0 = blobs s" using r by (rule checkRateLimit_frame)
  then show "rateLimitedProcedure u now wid (confirmUpload u aid fn sz h fo) s = (Inl NOT_FOUND, s0)"
    using b i by (simp add: rateLimited_admitted[OF r] confirmUpload_result)
next
  assume f: "(rateLimitedProcedure u now wid (getUploadPresignedUrl u aid fn sz h fo) s = (Inl e, s')
         \<or> rateLimitedProcedure u now wid (confirmUpload u aid fn sz h fo) s = (Inl e, s'))
        \<and> bigintOfNumber sz = Some d
        \<and> BIGINT_MIN \<le> storageUsed s u + d \<and> storageUsed s u + d \<le> BIGINT_MAX"
  obtain r s0 where c: "checkRateLimit u now wid s = (r, s0)" by (cases "checkRateLimit u now wid s")
  have fr: "files s0 = files s" "userAssets s0 = userAssets s" "userQuotas s0 = userQuotas s"
    using c by (rule checkRateLimit_frame)+
  have u0: "\<And>v. storageUsed s0 v = storageUsed s v" using fr(3) by (rule storageUsed_cong)
  have acc: "bigintOfNumber sz = Some d" "BIGINT_MIN \<le> storageUsed s0 u + d"
    "storageUsed s0 u + d \<le> BIGINT_MAX"
    using f u0 by simp_all
  have "files s' = files s \<and> userAssets s' = userAssets s \<and> (\<forall>v. storageUsed s' v = storageUsed s v)"
  proof (cases r)
    case (Inl e')
    then have c': "checkRateLimit u now wid s = (Inl e', s0)" using c by simp
    have "s' = s"
      using f rateLimited_refused[OF c', of "getUploadPresignedUrl u aid fn sz h fo"]
        rateLimited_refused[OF c', of "confirmUpload u aid fn sz h fo"]
      by auto
    then show ?thesis by simp
  next
    case (Inr x)
    then have adm: "\<And>handler. rateLimitedProcedure u now wid handler s = handler s0"
      using c by (simp add: rateLimitedProcedure_def)
    from f have "rateLimitedProcedure u now wid (getUploadPresignedUrl u aid fn sz h fo) s = (Inl e, s')
         \<or> rateLimitedProcedure u now wid (confirmUpload u aid fn sz h fo) s = (Inl e, s')"
      by simp
    then show ?thesis
    proof
      assume "rateLimitedProcedure u now wid (getUploadPresignedUrl u aid fn sz h fo) s = (Inl e, s')"
      then have "getUploadPresignedUrl u aid fn sz h fo s0 = (Inl e, s')" by (simp add: adm)
      then show ?thesis using presigned_failure[OF _ acc] fr u0 by simp
    next
      assume "rateLimitedProcedure u now wid (confirmUpload u aid fn sz h fo) s = (Inl e, s')"
      then have "confirmUpload u aid fn sz h fo s0 = (Inl e, s')" by (simp add: adm)
      then have "s' = s0" using acc by (rule confirmUpload_failure)
      then show ?thesis using fr u0 by simp
    qed
  qed
  then show "files s' = files s" "userAssets s' = userAssets s" "\<forall>v. storageUsed s' v = storageUsed s v"
    by simp_all
next
  assume ok: "rateLimitedProcedure u now wid (getUploadPresignedUrl u aid fn sz h fo) s
          = (Inr Deduplicated, s')"
  obtain s0 where c: "checkRateLimit u now wid s = (Inr (), s0)"
    and run: "getUploadPresignedUrl u aid fn sz h fo s0 = (Inr Deduplicated, s')"
    using ok by (auto simp: rateLimitedProcedure_def split: prod.splits sum.splits)
  have fr: "files s0 = files s" "userAssets s0 = userAssets s" "userQuotas s0 = userQuotas s"
    using c by (rule checkRateLimit_frame)+
  have u0: "storageUsed s0 u = storageUsed s u" using fr(3) by (rule storageUsed_cong)
  show "\<exists>d. bigintOfNumber sz = Some d
            \<and> files s' = files (incrementRefCount h s)
            \<and> userAssets s' = userAssets s @ [newAsset aid fn u fo h]
            \<and> storageUsed s' u = max 0 (storageUsed s u + d)"
    using presigned_linked[OF run] files_increment_cong[OF fr(1), of h] fr(2) u0 by auto
next
  assume ok: "rateLimitedProcedure u now wid (confirmUpload u aid fn sz h fo) s = (Inr (), s')"
  obtain s0 where c: "checkRateLimit u now wid s = (Inr (), s0)"
    and run: "confirmUpload u aid fn sz h fo s0 = (Inr (), s')"
    using ok by (auto simp: rateLimitedProcedure_def split: prod.splits sum.splits)
  have fr: "files s0 = files s" "userAssets s0 = userAssets s" "userQuotas s0 = userQuotas s"
    "blobs s0 = blobs s"
    using c by (rule checkRateLimit_frame)+
  have u0: "storageUsed s0 u = storageUsed s u" using fr(3) by (rule storageUsed_cong)
  obtain d where d: "bigintOfNumber sz = Some d" "h \<in> set (blobs s0)"
    "files s' = files (upsertFile h d s0)"
    "userAssets s' = userAssets s0 @ [newAsset aid fn u fo h]"
    "storageUsed s' u = max 0 (storageUsed s0 u + d)"
    using confirmUpload_success[OF run] by blast
  show "\<exists>d. bigintOfNumber sz = Some d
            \<and> h \<in> set (blobs s)
            \<and> files s' = files (upsertFile h d s)
            \<and> userAssets s' = userAssets s @ [newAsset aid fn u fo h]
            \<and> storageUsed s' u = max 0 (storageUsed s u + d)"
    using d files_upsert_cong[OF fr(1), of h d] fr(2,4) u0 by auto
qed

text \<open>
  C3 as stated fails: the steps do not run in that order. The rate limit runs before the
  quota check. A request over the quota is refused only after the rate limiter has counted
  it; and when the window of the user is full, a request over the quota is answered with
  \<^verbatim>\<open>TOO_MANY_REQUESTS\<close>.
\<close>

theorem upload_claim_counterexample:
  "(\<exists>s'. rateLimitedProcedure ''alice'' 5100 windowV
            (getUploadPresignedUrl ''alice'' assetD ''d.bin'' 1073741824 hashK None) exampleStore
          = (Inl PAYLOAD_TOO_LARGE, s')
        \<and> windowCount exampleStore ''alice'' 5000 = 0 \<and> windowCount s' ''alice'' 5000 = 1)
   \<and> storageLimit busyStore ''alice'' < storageUsed busyStore ''alice'' + 1073741824
   \<and> rateLimitedProcedure ''alice'' 5100 windowW
        (getUploadPresignedUrl ''alice'' assetD ''d.bin'' 1073741824 hashK None) busyStore
      = (Inl TOO_MANY_REQUESTS, busyStore)"
  by (simp add: busyStore_def example_defs admission_defs upload_defs input_defs number_defs Let_def)

text \<open>
  C3 in the example states. In \<open>busyStore\<close> the rate limit refuses the request. In
  \<open>exampleStore\<close>: a size of 0 is refused by the parser; a confirmed upload into a folder
  that does not exist fails and charges nothing; a deduplicated link and a confirmed upload
  succeed and charge the declared size; a request above the quota is refused with
  \<^verbatim>\<open>PAYLOAD_TOO_LARGE\<close>. In \<open>emptyStore\<close>, which holds no blob, a confirmation fails
  with \<^verbatim>\<open>NOT_FOUND\<close>.
\<close>

theorem upload_steps_and_rollback_witness:
  "rateLimitedProcedure ''alice'' 5100 windowW
      (getUploadPresignedUrl ''alice'' assetD ''d.bin'' 70 hashK None) busyStore
     = (Inl TOO_MANY_REQUESTS, busyStore)
   \<and> fst (rateLimitedProcedure ''alice'' 5100 windowV
            (confirmUpload ''alice'' assetD ''d.bin'' 0 hashK None) exampleStore)
          = Inl BAD_REQUEST
   \<and> (\<exists>s'. rateLimitedProcedure ''alice'' 5100 windowV
            (confirmUpload ''alice'' assetD ''d.bin'' 70 hashK (Some folderX)) exampleStore
          = (Inl INTERNAL_SERVER_ERROR, s')
        \<and> files s' = files exampleStore \<and> userAssets s' = userAssets exampleStore
        \<and> storageUsed s' ''alice'' = 200)
   \<and> (\<exists>s'. rateLimitedProcedure ''alice'' 5100 windowV
            (getUploadPresignedUrl ''alice'' assetD ''d.bin'' 70 hashK None) exampleStore
          = (Inr Deduplicated, s')
        \<and> userAssets s' = userAssets exampleStore @ [newAsset assetD ''d.bin'' ''alice'' None hashK]
        \<and> storageUsed s' ''alice'' = 270)
   \<and> (\<exists>s'. rateLimitedProcedure ''alice'' 5100 windowV
            (confirmUpload ''alice'' assetD ''d.bin'' 70 hashK None) exampleStore
          = (Inr (), s')
        \<and> userAssets s' = userAssets exampleStore @ [newAsset assetD ''d.bin'' ''alice'' None hashK]
        \<and> storageUsed s' ''alice'' = 270)
   \<and> fst (rateLimitedProcedure ''alice'' 5100 windowV
            (getUploadPresignedUrl ''alice'' assetD ''d.bin'' 1073741824 hashK None) exampleStore)
          = Inl PAYLOAD_TOO_LARGE
   \<and> fst (rateLimitedProcedure ''alice'' 5100 windowV
            (confirmUpload ''alice'' assetD ''d.bin'' 70 hashK None) emptyStore)
          = Inl NOT_FOUND"
proof -
  obtain s1 where f1: "rateLimitedProcedure ''alice'' 5100 windowV
            (confirmUpload ''alice'' assetD ''d.bin'' 70 hashK (Some folderX)) exampleStore
          = (Inl INTERNAL_SERVER_ERROR, s1)"
    by (simp add: example_defs admission_defs upload_defs input_defs number_defs Let_def)
  obtain s2 where f2: "rateLimitedProcedure ''alice'' 5100 windowV
            (getUploadPresignedUrl ''alice'' assetD ''d.bin'' 70 hashK None) exampleStore
          = (Inr Deduplicated, s2)"
    by (simp add: example_defs admission_defs upload_defs input_defs number_defs Let_def)
  obtain s3 where f3: "rateLimitedProcedure ''alice'' 5100 windowV
            (confirmUpload ''alice'' assetD ''d.bin'' 70 hashK None) exampleStore
          = (Inr (), s3)"
    by (simp add: example_defs admission_defs upload_defs input_defs number_defs Let_def)
  obtain s4 where f4: "checkRateLimit ''alice'' 5100 windowV exampleStore = (Inr (), s4)"
    by (simp add: example_defs admission_defs Let_def)
  obtain s5 where f5: "checkRateLimit ''alice'' 5100 windowV emptyStore = (Inr (), s5)"
    by (simp add: emptyStore_def admission_defs Let_def)
  have f6: "checkRateLimit ''alice'' 5100 windowW busyStore = (Inl TOO_MANY_REQUESTS, busyStore)"
    by (simp add: busyStore_def example_defs admission_defs Let_def)
  have u: "storageUsed exampleStore ''alice'' = 200"
    by (simp add: exampleStore_def storageUsed_def)
  have l: "storageLimit exampleStore ''alice'' = 1073741824"
    by (simp add: exampleStore_def storageLimit_def DEFAULT_STORAGE_LIMIT_def)
  have nb: "hashK \<notin> set (blobs emptyStore)" by (simp add: emptyStore_def)
  have b70: "bigintOfNumber 70 = Some 70" by (simp add: number_defs)
  have i1: "uploadInput ''d.bin'' 70 hashK None" by (simp add: input_defs hashK_def)
  have i3: "uploadInput ''d.bin'' 1073741824 hashK None" by (simp add: input_defs hashK_def)
  have i4: "\<not> uploadInput ''d.bin'' 0 hashK None" by (simp add: input_defs hashK_def)
  have r: "rateLimitedProcedure ''alice'' 5100 windowW
      (getUploadPresignedUrl ''alice'' assetD ''d.bin'' 70 hashK None) busyStore
     = (Inl TOO_MANY_REQUESTS, busyStore)"
    using upload_steps_and_rollback [of "''alice''" 5100 windowW busyStore TOO_MANY_REQUESTS
        busyStore assetD "''d.bin''" 70 hashK None 70 busyStore 70] f6
    by simp
  have v: "fst (rateLimitedProcedure ''alice'' 5100 windowV
            (confirmUpload ''alice'' assetD ''d.bin'' 0 hashK None) exampleStore)
          = Inl BAD_REQUEST"
    using upload_steps_and_rollback [of "''alice''" 5100 windowV exampleStore INTERNAL_SERVER_ERROR
        s4 assetD "''d.bin''" 0 hashK None 0 s4 0] f4 i4
    by simp
  have a: "files s1 = files exampleStore \<and> userAssets s1 = userAssets exampleStore
        \<and> storageUsed s1 ''alice'' = 200"
    using upload_steps_and_rollback [of "''alice''" 5100 windowV exampleStore INTERNAL_SERVER_ERROR
        s1 assetD "''d.bin''" 70 hashK "Some folderX" 70 s1 70] f1 u b70
    by (simp add: BIGINT_MIN_def BIGINT_MAX_def)
  have b: "userAssets s2 = userAssets exampleStore @ [newAsset assetD ''d.bin'' ''alice'' None hashK]
        \<and> storageUsed s2 ''alice'' = 270"
    using upload_steps_and_rollback [of "''alice''" 5100 windowV exampleStore INTERNAL_SERVER_ERROR
        s2 assetD "''d.bin''" 70 hashK None 70 s2 70] f2 u b70
    by simp
  have c: "userAssets s3 = userAssets exampleStore @ [newAsset assetD ''d.bin'' ''alice'' None hashK]
        \<and> storageUsed s3 ''alice'' = 270"
    using upload_steps_and_rollback [of "''alice''" 5100 windowV exampleStore INTERNAL_SERVER_ERROR
        s3 assetD "''d.bin''" 70 hashK None 70 s3 70] f3 u b70
    by simp
  have d: "fst (rateLimitedProcedure ''alice'' 5100 windowV
            (getUploadPresignedUrl ''alice'' assetD ''d.bin'' 1073741824 hashK None) exampleStore)
          = Inl PAYLOAD_TOO_LARGE"
    using upload_steps_and_rollback [of "''alice''" 5100 windowV exampleStore INTERNAL_SERVER_ERROR
        s4 assetD "''d.bin''" 1073741824 hashK None 1073741824 s4 0] f4 u l i3
    by simp
  have e: "fst (rateLimitedProcedure ''alice'' 5100 windowV
            (confirmUpload ''alice'' assetD ''d.bin'' 70 hashK None) emptyStore)
          = Inl NOT_FOUND"
    using upload_steps_and_rollback [of "''alice''" 5100 windowV emptyStore INTERNAL_SERVER_ERROR
        s5 assetD "''d.bin''" 70 hashK None 70 s5 70] f5 nb i1
    by simp
  show ?thesis using f1 f2 f3 r v a b c d e by blast
qed

text \<open>
  Where the store does not read the declared size as a \<^verbatim>\<open>bigint\<close>, the update of the
  usage fails after the transaction of \<^verbatim>\<open>getUploadPresignedUrl\<close> has committed. A size
  of 70.5 passes the parser and the quota check; the call fails, and the asset row and the
  raised reference count stay.
\<close>

lemma link_kept_when_charge_refused:
  "\<exists>s'. getUploadPresignedUrl ''alice'' assetD ''d.bin'' (141 / 2) hashK None exampleStore
          = (Inl INTERNAL_SERVER_ERROR, s')
       \<and> userAssets s' = userAssets exampleStore @ [newAsset assetD ''d.bin'' ''alice'' None hashK]
       \<and> files s' = files (incrementRefCount hashK exampleStore)
       \<and> storageUsed s' ''alice'' = 200"
proof -
  have dd: "toDouble (541 / 2) = 541 / 2" "toDouble (200 + 141 / 2) = 541 / 2"
    by code_simp+
  have bb: "bigintOfNumber (141 / 2) = None" by code_simp
  show ?thesis
    by (simp add: example_defs admission_defs upload_defs uploadInput_def
        updateStorageUsageChecked_def toNumber_numeral newAsset_def dd bb Let_def)
qed

text \<open>
  C2 at a concrete input. The files row of \<open>hashK\<close> records 40 bytes. Alice confirms an
  upload of that content with a declared size of 70: she is charged 70. When she deletes
  the asset the size of the files row, 40, is released, and her usage ends 30 above where
  it started.
\<close>

theorem usage_not_restored:
  "storageUsed exampleStore ''alice'' = 200
   \<and> find (\<lambda>f. file_hash f = hashK) (files exampleStore) = Some fileK \<and> file_size fileK = 40
   \<and> (\<exists>s1 s2. confirmUpload ''alice'' assetD ''d.bin'' 70 hashK None exampleStore = (Inr (), s1)
          \<and> storageUsed s1 ''alice'' = 270
          \<and> deleteAsset ''alice'' assetD s1 = (Inr (), s2)
          \<and> storageUsed s2 ''alice'' = 230)"
  by (simp add: example_defs admission_defs upload_defs input_defs number_defs deleteAsset_def
      releaseAsset_def Let_def)

section \<open>The reference counts\<close>

lemma key_not_in_image: "x \<in> set xs \<Longrightarrow> k \<notin> f ` set xs \<Longrightarrow> f x \<noteq> k"
  by auto

lemma invariants_cong:
  assumes "files t = files s" "userAssets t = userAssets s"
  shows "storeConstraints t = storeConstraints s" "dedupInvariant t = dedupInvariant s"
  using assms by (simp_all add: storeConstraints_def dedupInvariant_def refsOf_def)

lemma refsOf_snoc:
  "userAssets t = userAssets s @ [row] \<Longrightarrow>
     refsOf t h = refsOf s h + (if asset_fileHash row = h then 1 else 0)"
  by (simp add: refsOf_def)

lemma linked_inv:
  assumes sc: "storeConstraints s" and inv: "dedupInvariant s"
    and fresh: "asset_id row \<notin> asset_id ` set (userAssets s)"
    and ua: "userAssets t = userAssets s @ [row]"
    and fs: "files t = files (upsertFile (asset_fileHash row) sz s)"
  shows "storeConstraints t \<and> dedupInvariant t"
proof -
  let ?h = "asset_fileHash row"
  let ?inc = "\<lambda>f. if file_hash f = ?h then f\<lparr>file_refCount := file_refCount f + 1\<rparr> else f"
  have old: "\<And>g. g \<in> set (files s) \<Longrightarrow> file_refCount g = int (refsOf s (file_hash g))"
    using inv by (simp add: dedupInvariant_def list_all_iff)
  have fk: "\<And>b. b \<in> set (userAssets s) \<Longrightarrow> asset_fileHash b \<in> file_hash ` set (files s)"
    using sc by (simp add: storeConstraints_def list_all_iff)
  have pk: "distinct (map asset_id (userAssets t))"
    using sc fresh by (simp add: ua storeConstraints_def)
  show ?thesis
  proof (cases "?h \<in> file_hash ` set (files s)")
    case True
    then have ft: "files t = map ?inc (files s)"
      by (simp add: fs upsertFile_def incrementRefCount_def)
    have "map file_hash (map ?inc (files s)) = map file_hash (files s)"
      by (induction "files s") auto
    then have "set (map file_hash (files t)) = set (map file_hash (files s))"
      unfolding ft by (rule arg_cong)
    then have hs: "file_hash ` set (files t) = file_hash ` set (files s)" by (simp only: set_map)
    have "storeConstraints t"
      unfolding storeConstraints_def list_all_iff hs using pk fk True by (auto simp: ua)
    moreover have "dedupInvariant t"
      unfolding dedupInvariant_def list_all_iff
    proof
      fix f' assume "f' \<in> set (files t)"
      then obtain g where g: "g \<in> set (files s)" and f': "f' = ?inc g" by (auto simp: ft)
      show "file_refCount f' = int (refsOf t (file_hash f'))"
        using old[OF g] by (auto simp: f' refsOf_snoc[OF ua])
    qed
    ultimately show ?thesis by simp
  next
    case False
    then have ft: "files t = files s @
        [\<lparr>file_hash = ?h, file_size = sz, file_path = ?h, file_refCount = 1\<rparr>]"
      by (simp add: fs upsertFile_def)
    have zero: "refsOf s ?h = 0" using False fk by (auto simp: refsOf_zero)
    have "storeConstraints t"
      unfolding storeConstraints_def list_all_iff using pk fk by (auto simp: ua ft)
    moreover have "dedupInvariant t"
      unfolding dedupInvariant_def list_all_iff
    proof
      fix f' assume "f' \<in> set (files t)"
      then consider "f' \<in> set (files s)"
        | "f' = \<lparr>file_hash = ?h, file_size = sz, file_path = ?h, file_refCount = 1\<rparr>"
        by (auto simp: ft)
      then show "file_refCount f' = int (refsOf t (file_hash f'))"
      proof cases
        case 1
        then have "file_hash f' \<noteq> ?h" using False by (rule key_not_in_image)
        then show ?thesis using old[OF 1] by (simp add: refsOf_snoc[OF ua])
      next
        case 2
        then show ?thesis using zero by (simp add: refsOf_snoc[OF ua])
      qed
    qed
    ultimately show ?thesis by simp
  qed
qed

lemma deleteFolderRow_inv:
  assumes "storeConstraints t" "dedupInvariant t"
  shows "storeConstraints (deleteFolderRow fid t) \<and> dedupInvariant (deleteFolderRow fid t)"
proof -
  let ?g = "\<lambda>a. if asset_folderId a = Some fid then a\<lparr>asset_folderId := None\<rparr> else a"
  have ids: "map asset_id (map ?g (userAssets t)) = map asset_id (userAssets t)"
    by (induction "userAssets t") auto
  have hs: "map asset_fileHash (map ?g (userAssets t)) = map asset_fileHash (userAssets t)"
    by (induction "userAssets t") auto
  have refs: "\<And>h. refsOf (deleteFolderRow fid t) h = refsOf t h"
  proof -
    fix h
    have "refsOf (deleteFolderRow fid t) h
            = length (filter (\<lambda>x. x = h) (map asset_fileHash (map ?g (userAssets t))))"
      by (simp add: refsOf_def deleteFolderRow_def filter_map comp_def)
    also have "\<dots> = length (filter (\<lambda>x. x = h) (map asset_fileHash (userAssets t)))"
      by (simp only: hs)
    also have "\<dots> = refsOf t h" by (simp add: refsOf_def filter_map comp_def)
    finally show "refsOf (deleteFolderRow fid t) h = refsOf t h" .
  qed
  have f: "files (deleteFolderRow fid t) = files t" by (simp add: deleteFolderRow_def)
  have ua: "userAssets (deleteFolderRow fid t) = map ?g (userAssets t)"
    by (simp add: deleteFolderRow_def)
  have "set (map asset_fileHash (userAssets (deleteFolderRow fid t)))
          = set (map asset_fileHash (userAssets t))"
    unfolding ua by (simp only: hs)
  then have im: "asset_fileHash ` set (userAssets (deleteFolderRow fid t))
          = asset_fileHash ` set (userAssets t)" by (simp only: set_map)
  have "distinct (map asset_id (userAssets (deleteFolderRow fid t)))"
    unfolding ua ids using assms(1) by (simp add: storeConstraints_def)
  moreover have "\<forall>b \<in> set (userAssets (deleteFolderRow fid t)).
       asset_fileHash b \<in> file_hash ` set (files (deleteFolderRow fid t))"
  proof
    fix b assume "b \<in> set (userAssets (deleteFolderRow fid t))"
    then have "asset_fileHash b \<in> asset_fileHash ` set (userAssets t)" using im by blast
    then show "asset_fileHash b \<in> file_hash ` set (files (deleteFolderRow fid t))"
      using assms(1) by (auto simp: f storeConstraints_def list_all_iff)
  qed
  ultimately have "storeConstraints (deleteFolderRow fid t)"
    by (simp add: storeConstraints_def list_all_iff)
  moreover have "dedupInvariant (deleteFolderRow fid t)"
    using assms(2) by (simp add: dedupInvariant_def refs f)
  ultimately show ?thesis by simp
qed

lemma fold_deleteFolderRow_inv:
  "storeConstraints t \<Longrightarrow> dedupInvariant t \<Longrightarrow>
     storeConstraints (fold deleteFolderRow ids t) \<and> dedupInvariant (fold deleteFolderRow ids t)"
proof (induction ids arbitrary: t)
  case Nil
  then show ?case by simp
next
  case (Cons fid ids)
  have "storeConstraints (deleteFolderRow fid t) \<and> dedupInvariant (deleteFolderRow fid t)"
    using Cons.prems by (rule deleteFolderRow_inv)
  then show ?case using Cons.IH by simp
qed

lemma deleteFolderRow_log:
  "deleteFolderRow i (t\<lparr>folderDeletes := l\<rparr>) = (deleteFolderRow i t)\<lparr>folderDeletes := l\<rparr>"
  by (simp add: deleteFolderRow_def)

lemma fold_deleteFolderRow_log:
  "fold deleteFolderRow ids (t\<lparr>folderDeletes := l\<rparr>)
     = (fold deleteFolderRow ids t)\<lparr>folderDeletes := l\<rparr>"
  by (induction ids arbitrary: t) (simp_all add: deleteFolderRow_log)

lemma deleteFolderRow_keeps_log [simp]:
  "folderDeletes (deleteFolderRow i t) = folderDeletes t"
  by (simp add: deleteFolderRow_def)

lemma fold_deleteFolderRow_keeps_log [simp]:
  "folderDeletes (fold deleteFolderRow ids t) = folderDeletes t"
  by (induction ids arbitrary: t) simp_all

lemma fold_purgeFolderRow:
  "fold purgeFolderRow ids t =
     (fold deleteFolderRow ids t)\<lparr>folderDeletes := folderDeletes t @ ids\<rparr>"
proof (induction ids arbitrary: t)
  case Nil
  then show ?case by simp
next
  case (Cons i ids)
  have "fold purgeFolderRow (i # ids) t = fold purgeFolderRow ids (purgeFolderRow i t)" by simp
  also have "\<dots> = (fold deleteFolderRow ids (purgeFolderRow i t))
                      \<lparr>folderDeletes := folderDeletes (purgeFolderRow i t) @ ids\<rparr>"
    by (rule Cons.IH)
  also have "\<dots> = (fold deleteFolderRow (i # ids) t)\<lparr>folderDeletes := folderDeletes t @ i # ids\<rparr>"
    by (simp add: purgeFolderRow_def fold_deleteFolderRow_log)
  finally show ?case .
qed

lemma fold_purgeFolderRow_inv:
  "storeConstraints t \<Longrightarrow> dedupInvariant t \<Longrightarrow>
     storeConstraints (fold purgeFolderRow ids t) \<and> dedupInvariant (fold purgeFolderRow ids t)"
  using fold_deleteFolderRow_inv[of t ids]
    invariants_cong[of "fold purgeFolderRow ids t" "fold deleteFolderRow ids t"]
  by (simp add: fold_purgeFolderRow)

lemma releaseAll_inv:
  "storeConstraints t \<Longrightarrow> dedupInvariant t \<Longrightarrow> set as \<subseteq> set (userAssets t) \<Longrightarrow>
   distinct (map asset_id as) \<Longrightarrow>
     storeConstraints (snd (releaseAll snapshot as acc t))
   \<and> dedupInvariant (snd (releaseAll snapshot as acc t))"
proof (induction as arbitrary: t acc)
  case Nil
  then show ?case by simp
next
  case (Cons a as)
  have a: "a \<in> set (userAssets t)" using Cons.prems(3) by simp
  obtain t1 where r: "releaseAsset (asset_id a) (asset_fileHash a) t = (Inr (), t1)"
    and sc1: "storeConstraints t1" and inv1: "dedupInvariant t1"
    and ua1: "userAssets t1 = filter (\<lambda>b. asset_id b \<noteq> asset_id a) (userAssets t)"
    using releaseAsset_inv[OF Cons.prems(1,2) a] by blast
  have sub: "set as \<subseteq> set (userAssets t1)"
  proof
    fix b assume b: "b \<in> set as"
    then have "asset_id b \<noteq> asset_id a" using Cons.prems(4) by (simp add: key_not_in_image)
    moreover have "b \<in> set (userAssets t)" using b Cons.prems(3) by auto
    ultimately show "b \<in> set (userAssets t1)" by (simp add: ua1)
  qed
  have d: "distinct (map asset_id as)" using Cons.prems(4) by simp
  show ?case
  proof (cases "find (\<lambda>f. file_hash f = asset_fileHash a) snapshot")
    case None
    then show ?thesis using r sc1 inv1 by simp
  next
    case (Some row)
    then show ?thesis
      using r Cons.IH[OF sc1 inv1 sub d, of "acc + file_size row"] by simp
  qed
qed

lemma insertAsset_fresh:
  "insertAsset row t = (Inr (), t') \<Longrightarrow> asset_id row \<notin> asset_id ` set (userAssets t)"
  by (auto simp: insertAsset_def split: if_splits)

lemma updateStorageUsageChecked_inv:
  "storeConstraints (snd (updateStorageUsageChecked u sz t)) = storeConstraints t"
  "dedupInvariant (snd (updateStorageUsageChecked u sz t)) = dedupInvariant t"
proof -
  have "files (snd (updateStorageUsageChecked u sz t)) = files t
      \<and> userAssets (snd (updateStorageUsageChecked u sz t)) = userAssets t"
    by (cases rule: updateStorageUsageChecked_cases[of u sz t]) simp_all
  then show "storeConstraints (snd (updateStorageUsageChecked u sz t)) = storeConstraints t"
    "dedupInvariant (snd (updateStorageUsageChecked u sz t)) = dedupInvariant t"
    using invariants_cong[of "snd (updateStorageUsageChecked u sz t)" t] by simp_all
qed

lemma confirmUpload_inv:
  assumes sc: "storeConstraints s" and inv: "dedupInvariant s"
  shows "storeConstraints (snd (confirmUpload u aid fn sz h fo s))
       \<and> dedupInvariant (snd (confirmUpload u aid fn sz h fo s))"
proof (cases "uploadInput fn sz h fo \<and> h \<in> set (blobs s)
    \<and> (\<exists>d. bigintOfNumber sz = Some d
          \<and> fst (insertAsset (newAsset aid fn u fo h) (upsertFile h d s)) = Inr ())")
  case False
  then have "snd (confirmUpload u aid fn sz h fo s) = s"
    by (auto simp: confirmUpload_result split: option.splits)
  then show ?thesis using sc inv by simp
next
  case True
  then obtain d where d: "bigintOfNumber sz = Some d"
    and ins: "fst (insertAsset (newAsset aid fn u fo h) (upsertFile h d s)) = Inr ()"
    by blast
  let ?row = "newAsset aid fn u fo h"
  let ?t = "(upsertFile h d s)\<lparr>userAssets := userAssets s @ [?row]\<rparr>"
  have res: "confirmUpload u aid fn sz h fo s = updateStorageUsageChecked u sz ?t"
    using True d ins by (simp add: confirmUpload_result)
  obtain t' where "insertAsset ?row (upsertFile h d s) = (Inr (), t')"
    using ins by (cases "insertAsset ?row (upsertFile h d s)") auto
  then have "asset_id ?row \<notin> asset_id ` set (userAssets (upsertFile h d s))"
    by (rule insertAsset_fresh)
  then have fresh: "asset_id ?row \<notin> asset_id ` set (userAssets s)" by simp
  have "storeConstraints ?t \<and> dedupInvariant ?t"
    using sc inv fresh by (rule linked_inv) (simp_all add: newAsset_def)
  then show ?thesis
    unfolding res by (simp add: updateStorageUsageChecked_inv)
qed

lemma presigned_inv:
  assumes sc: "storeConstraints s" and inv: "dedupInvariant s"
  shows "storeConstraints (snd (getUploadPresignedUrl u aid fn sz h fo s))
       \<and> dedupInvariant (snd (getUploadPresignedUrl u aid fn sz h fo s))"
proof (cases "uploadInput fn sz h fo")
  case False
  then have "snd (getUploadPresignedUrl u aid fn sz h fo s) = s"
    by (simp add: getUploadPresignedUrl_def)
  then show ?thesis using sc inv by simp
next
  case True
  let ?row = "newAsset aid fn u fo h"
  obtain r s1 where q: "checkStorageQuota u sz s = (r, s1)"
    and fr: "files s1 = files s" "userAssets s1 = userAssets s"
    using checkStorageQuota_result[of u sz s] by blast
  have i1: "storeConstraints s1" "dedupInvariant s1"
    using sc inv invariants_cong[OF fr] by simp_all
  show ?thesis
  proof (cases r)
    case (Inl e)
    then show ?thesis using q i1 True by (simp add: getUploadPresignedUrl_def)
  next
    case (Inr x)
    show ?thesis
    proof (cases "find (\<lambda>f. file_hash f = h) (files s1)")
      case None
      then show ?thesis using q Inr i1 True by (simp add: getUploadPresignedUrl_def)
    next
      case (Some existingFile)
      then have eh: "file_hash existingFile = h" and ein: "existingFile \<in> set (files s1)"
        by (auto simp: find_Some_iff)
      have hin: "h \<in> file_hash ` set (files s1)" using eh ein by force
      consider "insertAsset ?row s1 = (Inl INTERNAL_SERVER_ERROR, s1)"
        | "insertAsset ?row s1 = (Inr (), s1\<lparr>userAssets := userAssets s1 @ [?row]\<rparr>)"
        using insertAsset_result[of ?row s1] by blast
      then show ?thesis
      proof cases
        case 1
        then have "snd (getUploadPresignedUrl u aid fn sz h fo s) = s1"
          using q Inr Some eh True
          by (simp add: getUploadPresignedUrl_def transaction_def newAsset_def)
        then show ?thesis using i1 by simp
      next
        case 2
        let ?t = "incrementRefCount h (s1\<lparr>userAssets := userAssets s1 @ [?row]\<rparr>)"
        have res: "snd (getUploadPresignedUrl u aid fn sz h fo s)
                     = snd (updateStorageUsageChecked u sz ?t)"
          using 2 q Inr Some eh True
          by (simp add: getUploadPresignedUrl_def transaction_def newAsset_def
              split: prod.splits sum.splits)
        have fresh: "asset_id ?row \<notin> asset_id ` set (userAssets s1)"
          using 2 by (rule insertAsset_fresh)
        have "storeConstraints ?t \<and> dedupInvariant ?t"
          using i1 fresh
        proof (rule linked_inv)
          show "userAssets ?t = userAssets s1 @ [?row]" by simp
          show "files ?t = files (upsertFile (asset_fileHash ?row) 0 s1)"
            using hin by (simp add: upsertFile_def incrementRefCount_def newAsset_def)
        qed
        then show ?thesis
          unfolding res by (simp add: updateStorageUsageChecked_inv)
      qed
    qed
  qed
qed

lemma purge_inv:
  assumes sc: "storeConstraints s" and inv: "dedupInvariant s"
    and a: "a \<in> set (userAssets s)"
  shows "storeConstraints (snd (case transaction (releaseAsset (asset_id a) (asset_fileHash a)) s of
                 (Inl e, s1) \<Rightarrow> (Inl e, s1)
               | (Inr _, s1) \<Rightarrow> (Inr (), updateStorageUsage u d s1)))
       \<and> dedupInvariant (snd (case transaction (releaseAsset (asset_id a) (asset_fileHash a)) s of
                 (Inl e, s1) \<Rightarrow> (Inl e, s1)
               | (Inr _, s1) \<Rightarrow> (Inr (), updateStorageUsage u d s1)))"
proof -
  obtain t' where r: "releaseAsset (asset_id a) (asset_fileHash a) s = (Inr (), t')"
    and i: "storeConstraints t'" "dedupInvariant t'"
    using releaseAsset_inv[OF sc inv a] by blast
  show ?thesis
    using i invariants_cong[of "updateStorageUsage u d t'" t']
    by (simp add: transaction_def r)
qed

lemma deleteAsset_inv:
  assumes sc: "storeConstraints s" and inv: "dedupInvariant s"
  shows "storeConstraints (snd (deleteAsset u x s)) \<and> dedupInvariant (snd (deleteAsset u x s))"
proof (cases "find (\<lambda>a. asset_id a = x \<and> asset_userId a = u) (userAssets s)")
  case None
  then show ?thesis using sc inv by (simp add: deleteAsset_def)
next
  case (Some a)
  then have a: "a \<in> set (userAssets s)" and ax: "asset_id a = x" by (auto simp: find_Some_iff)
  show ?thesis
  proof (cases "find (\<lambda>f. file_hash f = asset_fileHash a) (files s)")
    case None
    then show ?thesis using Some sc inv by (simp add: deleteAsset_def)
  next
    case (Some row)
    show ?thesis
      using purge_inv[OF sc inv a, of u "- file_size row"] \<open>find _ (userAssets s) = Some a\<close> Some ax
      by (simp add: deleteAsset_def)
  qed
qed

lemma permanentlyDelete_inv:
  assumes sc: "storeConstraints s" and inv: "dedupInvariant s"
  shows "storeConstraints (snd (permanentlyDelete u x s))
       \<and> dedupInvariant (snd (permanentlyDelete u x s))"
proof (cases "find (\<lambda>a. asset_id a = x \<and> asset_userId a = u \<and> asset_deletedAt a \<noteq> None) (userAssets s)")
  case None
  then show ?thesis using sc inv by (simp add: permanentlyDelete_def)
next
  case (Some a)
  then have a: "a \<in> set (userAssets s)" and ax: "asset_id a = x" by (auto simp: find_Some_iff)
  show ?thesis
  proof (cases "find (\<lambda>f. file_hash f = asset_fileHash a) (files s)")
    case None
    then show ?thesis using Some sc inv by (simp add: permanentlyDelete_def)
  next
    case (Some row)
    show ?thesis
      using purge_inv[OF sc inv a, of u "- file_size row"] \<open>find _ (userAssets s) = Some a\<close> Some ax
      by (simp add: permanentlyDelete_def)
  qed
qed
lemma transaction_inv:
  assumes sc: "storeConstraints s" and inv: "dedupInvariant s"
    and b: "storeConstraints (snd (body s)) \<and> dedupInvariant (snd (body s))"
  shows "storeConstraints (snd (transaction body s)) \<and> dedupInvariant (snd (transaction body s))"
proof (cases "body s")
  case (Pair r t)
  show ?thesis
  proof (cases r)
    case (Inl e)
    have "storeConstraints (s\<lparr>blobs := blobs t, s3Deleted := s3Deleted t\<rparr>)
        \<and> dedupInvariant (s\<lparr>blobs := blobs t, s3Deleted := s3Deleted t\<rparr>)"
      using sc inv invariants_cong[of "s\<lparr>blobs := blobs t, s3Deleted := s3Deleted t\<rparr>" s] by simp
    then show ?thesis using Pair Inl by (simp add: transaction_def)
  next
    case (Inr x)
    then show ?thesis using Pair b by (simp add: transaction_def)
  qed
qed

lemma filtered_assets:
  assumes "storeConstraints s"
  shows "set (filter P (userAssets s)) \<subseteq> set (userAssets s)"
    and "distinct (map asset_id (filter P (userAssets s)))"
  using assms by (auto simp: storeConstraints_def distinct_map_filter)

lemma permanentlyDeleteFolder_inv:
  assumes sc: "storeConstraints s" and inv: "dedupInvariant s"
    and run: "permanentlyDeleteFolder fuel u fid s = Some (r, s')"
  shows "storeConstraints s' \<and> dedupInvariant s'"
proof (cases "find (\<lambda>f. folder_id f = fid \<and> folder_userId f = u \<and> folder_deletedAt f \<noteq> None) (folders s)")
  case None
  then have "s' = s" using run by (simp add: permanentlyDeleteFolder_def)
  then show ?thesis using sc inv by simp
next
  case (Some folder)
  obtain folderIds where c: "collectAllFolderIds fuel (folders s) u fid = Some folderIds"
    using run Some by (cases "collectAllFolderIds fuel (folders s) u fid")
      (simp_all add: permanentlyDeleteFolder_def)
  define as where "as = filter (\<lambda>a. asset_userId a = u \<and> inFolders folderIds a) (userAssets s)"
  define body where "body = (\<lambda>t. case releaseAll (files s) as 0 t of
                                  (Inl e, t1) \<Rightarrow> (Inl e, t1)
                                | (Inr n, t1) \<Rightarrow> (Inr n, fold purgeFolderRow (purgeOrder folderIds) t1))"
  have rel: "storeConstraints (snd (releaseAll (files s) as 0 s))
           \<and> dedupInvariant (snd (releaseAll (files s) as 0 s))"
    unfolding as_def using sc inv filtered_assets[OF sc] by (intro releaseAll_inv)
  have b: "storeConstraints (snd (body s)) \<and> dedupInvariant (snd (body s))"
  proof (cases "releaseAll (files s) as 0 s")
    case (Pair rr t1)
    then show ?thesis
      using rel fold_purgeFolderRow_inv[of t1 "purgeOrder folderIds"]
      by (cases rr) (simp_all add: body_def)
  qed
  have tx: "storeConstraints (snd (transaction body s)) \<and> dedupInvariant (snd (transaction body s))"
    using sc inv b by (rule transaction_inv)
  have res: "Some (r, s') = (case transaction body s of
                     (Inl e, s1) \<Rightarrow> Some (Inl e, s1)
                   | (Inr n, s1) \<Rightarrow> Some (Inr n, updateStorageUsage u (- n) s1))"
    using run Some c by (simp add: permanentlyDeleteFolder_def Let_def as_def body_def)
  show ?thesis
  proof (cases "transaction body s")
    case (Pair rr s1)
    show ?thesis
    proof (cases rr)
      case (Inl e)
      then show ?thesis using res Pair tx by simp
    next
      case (Inr n)
      then have "s' = updateStorageUsage u (- n) s1" using res Pair by simp
      then show ?thesis
        using tx Pair invariants_cong[of "updateStorageUsage u (- n) s1" s1] by simp
    qed
  qed
qed

lemma emptyTrash_inv:
  assumes sc: "storeConstraints s" and inv: "dedupInvariant s"
    and run: "emptyTrash u s = Some (r, s')"
  shows "storeConstraints s' \<and> dedupInvariant s'"
proof -
  define as where "as = filter (\<lambda>a. asset_userId a = u \<and> asset_deletedAt a \<noteq> None) (userAssets s)"
  define tf where "tf = filter (\<lambda>f. folder_userId f = u \<and> folder_deletedAt f \<noteq> None) (folders s)"
  show ?thesis
  proof (cases "as = [] \<and> tf = []")
    case True
    then have "s' = s" using run by (simp add: emptyTrash_def Let_def as_def tf_def)
    then show ?thesis using sc inv by simp
  next
    case False
    have rel: "storeConstraints (snd (releaseAll (files s) as 0 s))
           \<and> dedupInvariant (snd (releaseAll (files s) as 0 s))"
      unfolding as_def using sc inv filtered_assets[OF sc] by (intro releaseAll_inv)
    have tx: "storeConstraints (snd (transaction (releaseAll (files s) as 0) s))
            \<and> dedupInvariant (snd (transaction (releaseAll (files s) as 0) s))"
      using sc inv rel by (rule transaction_inv)
    have res: "Some (r, s') = (case transaction (releaseAll (files s) as 0) s of
              (Inl e, s1) \<Rightarrow> Some (Inl e, s1)
            | (Inr n, t1) \<Rightarrow>
                (case folderDepths tf tf Map.empty of
                   None \<Rightarrow> None
                 | Some m \<Rightarrow>
                     Some (Inr n, updateStorageUsage u (- n)
                             (fold purgeFolderRow (map folder_id (sortedFolders m tf)) t1))))"
      using run False unfolding emptyTrash_def Let_def as_def[symmetric] tf_def[symmetric]
      by (simp split: prod.splits sum.splits)
    show ?thesis
    proof (cases "transaction (releaseAll (files s) as 0) s")
      case (Pair rr t1)
      show ?thesis
      proof (cases rr)
        case (Inl e)
        then show ?thesis using res Pair tx by simp
      next
        case (Inr n)
        then obtain m where "s' = updateStorageUsage u (- n)
                             (fold purgeFolderRow (map folder_id (sortedFolders m tf)) t1)"
          using res Pair by (cases "folderDepths tf tf Map.empty") simp_all
        then show ?thesis
          using tx Pair fold_purgeFolderRow_inv[of t1 "map folder_id (sortedFolders m tf)"]
            invariants_cong[of s' "fold purgeFolderRow (map folder_id (sortedFolders m tf)) t1"]
          by simp
      qed
    qed
  qed
qed

text \<open>
  C1. In a state where every files row carries as reference count the number of asset
  rows that reference its hash (and the asset table satisfies its primary and foreign
  keys), the same holds after \<^verbatim>\<open>confirmUpload\<close>, after \<^verbatim>\<open>getUploadPresignedUrl\<close> (the
  deduplicated link), after \<^verbatim>\<open>deleteAsset\<close>, after \<^verbatim>\<open>permanentlyDelete\<close>, and after
  every run of \<^verbatim>\<open>permanentlyDeleteFolder\<close> and \<^verbatim>\<open>emptyTrash\<close> that returns; also when
  the operation fails.
\<close>

theorem reference_counts_invariant:
  assumes sc: "storeConstraints s" and inv: "dedupInvariant s"
  shows "storeConstraints (snd (confirmUpload u aid fn sz h fo s))
       \<and> dedupInvariant (snd (confirmUpload u aid fn sz h fo s))
       \<and> storeConstraints (snd (getUploadPresignedUrl u aid fn sz h fo s))
       \<and> dedupInvariant (snd (getUploadPresignedUrl u aid fn sz h fo s))
       \<and> storeConstraints (snd (deleteAsset u x s))
       \<and> dedupInvariant (snd (deleteAsset u x s))
       \<and> storeConstraints (snd (permanentlyDelete u x s))
       \<and> dedupInvariant (snd (permanentlyDelete u x s))
       \<and> (permanentlyDeleteFolder fuel u fid s = Some (r, s') \<longrightarrow>
            storeConstraints s' \<and> dedupInvariant s')
       \<and> (emptyTrash u s = Some (r', s'') \<longrightarrow>
            storeConstraints s'' \<and> dedupInvariant s'')"
  using confirmUpload_inv[OF sc inv, of u aid fn sz h fo]
    presigned_inv[OF sc inv, of u aid fn sz h fo]
    deleteAsset_inv[OF sc inv, of u x] permanentlyDelete_inv[OF sc inv, of u x]
    permanentlyDeleteFolder_inv[OF sc inv, of fuel u fid r s']
    emptyTrash_inv[OF sc inv, of u r' s'']
  by blast

text \<open>C1 in \<open>trashStore\<close>: purging the trashed folder and emptying the trash both release the last reference of \<open>hashH\<close>.\<close>

theorem reference_counts_invariant_witness:
  "storeConstraints trashStore \<and> dedupInvariant trashStore
   \<and> (\<exists>s'. permanentlyDeleteFolder 4 ''alice'' folderR trashStore = Some (Inr 100, s')
         \<and> files s' = [] \<and> userAssets s' = [] \<and> dedupInvariant s')
   \<and> (\<exists>s'. emptyTrash ''alice'' trashStore = Some (Inr 100, s')
         \<and> files s' = [] \<and> userAssets s' = [] \<and> dedupInvariant s')
   \<and> dedupInvariant (snd (getUploadPresignedUrl ''alice'' assetD ''d.bin'' 70 hashH None trashStore))"
proof -
  have sc: "storeConstraints trashStore"
    by (simp add: storeConstraints_def trash_defs)
  have inv: "dedupInvariant trashStore"
    by (simp add: dedupInvariant_def refsOf_def trash_defs)
  obtain s1 where p: "permanentlyDeleteFolder 4 ''alice'' folderR trashStore = Some (Inr 100, s1)"
    and p': "files s1 = []" "userAssets s1 = []"
    by (simp add: trash_defs permanentlyDeleteFolder_def collectAllFolderIds_def purgeOrder_def
        inFolders_def transaction_def releaseAsset_def deleteFolderRow_def purgeFolderRow_def
        updateStorageUsage_def eval_nat_numeral Let_def)
  obtain s2 where e: "emptyTrash ''alice'' trashStore = Some (Inr 100, s2)"
    and e': "files s2 = []" "userAssets s2 = []"
    by (simp add: trash_defs emptyTrash_def transaction_def releaseAsset_def deleteFolderRow_def
        purgeFolderRow_def updateStorageUsage_def calculateDepth.simps sortedFolders_def
        depthOf_def Let_def)
  note t = reference_counts_invariant [OF sc inv, of "''alice''" assetD "''d.bin''" 70 hashH None
      assetD 4 folderR "Inr 100" s1 "Inr 100" s2]
  show ?thesis using sc inv p p' e e' t by blast
qed

section \<open>Moving a folder\<close>

lemma isDescendant_complete:
  "descendantOf fs F c \<Longrightarrow> isDescendant fs F c = Some True"
proof (induction rule: descendantOf.induct)
  case (child c row)
  then show ?case by (subst isDescendant.simps) simp
next
  case (below c row p)
  then show ?case by (subst isDescendant.simps) simp
qed

lemma moveFolder_failure_unchanged:
  "moveFolder u F p s = Some (Inl e, s') \<Longrightarrow> s' = s"
  by (auto simp: moveFolder_def split: option.splits if_splits bool.splits)

text \<open>
  C5, as the code has it. When the folder \<open>F\<close> and the target \<open>T\<close> are active folders of
  the user and \<open>T\<close> is \<open>F\<close> or a descendant of \<open>F\<close>, \<^verbatim>\<open>moveFolder\<close> fails with
  \<^verbatim>\<open>BAD_REQUEST\<close> and leaves the state as it was (the walk up the parent links ends).
  When \<open>F\<close> is not an active folder of the user, or \<open>T\<close> differs from \<open>F\<close> and is not
  one, it fails with \<^verbatim>\<open>NOT_FOUND\<close>. Whenever \<^verbatim>\<open>moveFolder\<close> fails, the state is as it
  was and the error is \<^verbatim>\<open>BAD_REQUEST\<close> or \<^verbatim>\<open>NOT_FOUND\<close>.
\<close>

theorem move_into_subtree_rejected:
  "(find (\<lambda>f. folder_id f = F \<and> folder_userId f = u \<and> folder_deletedAt f = None) (folders s)
        \<noteq> None
      \<and> find (\<lambda>f. folder_id f = T \<and> folder_userId f = u \<and> folder_deletedAt f = None) (folders s)
        \<noteq> None
      \<and> (T = F \<or> descendantOf (folders s) F T)
     \<longrightarrow> moveFolder u F (Some T) s = Some (Inl BAD_REQUEST, s))
   \<and> (find (\<lambda>f. folder_id f = F \<and> folder_userId f = u \<and> folder_deletedAt f = None) (folders s)
        = None
      \<or> T \<noteq> F
        \<and> find (\<lambda>f. folder_id f = T \<and> folder_userId f = u \<and> folder_deletedAt f = None) (folders s)
          = None
     \<longrightarrow> moveFolder u F (Some T) s = Some (Inl NOT_FOUND, s))
   \<and> (moveFolder u F p s = Some (Inl e, s') \<longrightarrow>
        s' = s \<and> (e = BAD_REQUEST \<or> e = NOT_FOUND))"
proof (intro conjI impI)
  assume a: "find (\<lambda>f. folder_id f = F \<and> folder_userId f = u \<and> folder_deletedAt f = None) (folders s)
        \<noteq> None
      \<and> find (\<lambda>f. folder_id f = T \<and> folder_userId f = u \<and> folder_deletedAt f = None) (folders s)
        \<noteq> None
      \<and> (T = F \<or> descendantOf (folders s) F T)"
  then obtain frow trow where
    f: "find (\<lambda>f. folder_id f = F \<and> folder_userId f = u \<and> folder_deletedAt f = None) (folders s)
          = Some frow"
    and t: "find (\<lambda>f. folder_id f = T \<and> folder_userId f = u \<and> folder_deletedAt f = None) (folders s)
          = Some trow"
    by auto
  show "moveFolder u F (Some T) s = Some (Inl BAD_REQUEST, s)"
  proof (cases "T = F")
    case True
    then show ?thesis using f by (simp add: moveFolder_def)
  next
    case False
    then have "descendantOf (folders s) F T" using a by simp
    then have "isDescendant (folders s) F T = Some True" by (rule isDescendant_complete)
    then show ?thesis using False f t by (simp add: moveFolder_def)
  qed
next
  assume "find (\<lambda>f. folder_id f = F \<and> folder_userId f = u \<and> folder_deletedAt f = None) (folders s)
        = None
      \<or> T \<noteq> F
        \<and> find (\<lambda>f. folder_id f = T \<and> folder_userId f = u \<and> folder_deletedAt f = None) (folders s)
          = None"
  then show "moveFolder u F (Some T) s = Some (Inl NOT_FOUND, s)"
    by (auto simp: moveFolder_def split: option.splits)
next
  assume m: "moveFolder u F p s = Some (Inl e, s')"
  then show "s' = s" by (rule moveFolder_failure_unchanged)
  show "e = BAD_REQUEST \<or> e = NOT_FOUND"
    using m by (auto simp: moveFolder_def split: option.splits if_splits bool.splits)
qed

text \<open>
  C5 in \<open>treeStore\<close>: \<open>folderP\<close> cannot be moved into its grandchild \<open>folderS\<close> nor into
  itself, and moving \<open>folderQ\<close> into the trashed \<open>folderT\<close> fails with \<^verbatim>\<open>NOT_FOUND\<close>.
\<close>

theorem move_into_subtree_rejected_witness:
  "descendantOf (folders treeStore) folderP folderS
   \<and> moveFolder ''alice'' folderP (Some folderS) treeStore = Some (Inl BAD_REQUEST, treeStore)
   \<and> moveFolder ''alice'' folderP (Some folderP) treeStore = Some (Inl BAD_REQUEST, treeStore)
   \<and> moveFolder ''alice'' folderQ (Some folderT) treeStore = Some (Inl NOT_FOUND, treeStore)"
proof -
  have q: "descendantOf (folders treeStore) folderP folderQ"
    by (rule descendantOf.child, simp add: tree_defs, simp add: tree_defs)
  have d: "descendantOf (folders treeStore) folderP folderS"
    by (rule descendantOf.below[OF _ _ q], simp add: tree_defs, simp add: tree_defs)
  have fp: "find (\<lambda>f. folder_id f = folderP \<and> folder_userId f = ''alice'' \<and> folder_deletedAt f = None)
              (folders treeStore) \<noteq> None"
    by (simp add: tree_defs)
  have fs: "find (\<lambda>f. folder_id f = folderS \<and> folder_userId f = ''alice'' \<and> folder_deletedAt f = None)
              (folders treeStore) \<noteq> None"
    by (simp add: tree_defs)
  have ft: "folderT \<noteq> folderQ
      \<and> find (\<lambda>f. folder_id f = folderT \<and> folder_userId f = ''alice'' \<and> folder_deletedAt f = None)
              (folders treeStore) = None"
    by (simp add: tree_defs)
  show ?thesis
    using d fp fs ft move_into_subtree_rejected [of folderP "''alice''" treeStore folderS]
      move_into_subtree_rejected [of folderP "''alice''" treeStore folderP]
      move_into_subtree_rejected [of folderQ "''alice''" treeStore folderT]
    by blast
qed

text \<open>
  C5 as stated fails. A trashed folder inside \<open>folderP\<close> is a descendant of \<open>folderP\<close> owned by the same user;
  moving \<open>folderP\<close> into it fails with \<^verbatim>\<open>NOT_FOUND\<close>, since the target is looked up
  among the active folders before the walk.
\<close>

theorem move_claim_counterexample:
  "descendantOf (folders treeStore) folderP folderT
   \<and> find (\<lambda>f. folder_id f = folderT) (folders treeStore)
       = Some \<lparr>folder_id = folderT, folder_name = ''t'', folder_userId = ''alice'',
               folder_parentId = Some folderP, folder_deletedAt = Some 3\<rparr>
   \<and> moveFolder ''alice'' folderP (Some folderT) treeStore = Some (Inl NOT_FOUND, treeStore)"
proof -
  have "descendantOf (folders treeStore) folderP folderT"
    by (rule descendantOf.child, simp add: tree_defs, simp add: tree_defs)
  then show ?thesis by (simp add: tree_defs moveFolder_def)
qed

section \<open>Collecting a subtree\<close>

lemma those_map_Some:
  "(\<forall>x \<in> set xs. f x \<noteq> None) \<Longrightarrow> those (map f xs) = Some (map (\<lambda>x. the (f x)) xs)"
  by (induction xs) auto

lemma those_map_SomeD:
  "those (map f xs) = Some ys \<Longrightarrow> list_all2 (\<lambda>x y. f x = Some y) xs ys"
proof (induction xs arbitrary: ys)
  case Nil
  then show ?case by simp
next
  case (Cons x xs)
  then show ?case by (auto split: option.splits)
qed

lemma collectSubtree_Some:
  assumes "collectSubtree n keep fs r = Some ids"
  obtains m subIds where "n = Suc m"
    and "list_all2 (\<lambda>sub y. collectSubtree m keep fs (folder_id sub) = Some y)
           (filter (\<lambda>f. folder_parentId f = Some r \<and> keep f) fs) subIds"
    and "ids = r # concat subIds"
proof (cases n)
  case 0
  then show ?thesis using assms by simp
next
  case (Suc m)
  let ?subs = "filter (\<lambda>f. folder_parentId f = Some r \<and> keep f) fs"
  obtain subIds where t: "those (map (\<lambda>sub. collectSubtree m keep fs (folder_id sub)) ?subs) = Some subIds"
    and i: "ids = r # concat subIds"
    using assms Suc by (auto simp: Let_def)
  show ?thesis using that[OF Suc those_map_SomeD[OF t] i] .
qed

lemma collectSubtree_head:
  "collectSubtree n keep fs r = Some ids \<Longrightarrow> \<exists>rest. ids = r # rest"
  by (erule collectSubtree_Some) simp

text \<open>
  Acyclic parent links: a depth \<open>g\<close> that grows from every parent to its children and
  stays below the bound of the recursion.
\<close>

lemma collectSubtree_terminates:
  fixes g :: "string \<Rightarrow> nat"
  assumes up: "\<forall>f \<in> set fs. \<forall>p. folder_parentId f = Some p \<longrightarrow> g p < g (folder_id f)"
    and bound: "\<forall>f \<in> set fs. g (folder_id f) < B"
  shows "g r < B \<Longrightarrow> B \<le> n + g r \<Longrightarrow> collectSubtree n keep fs r \<noteq> None"
proof (induction n arbitrary: r)
  case 0
  then show ?case by simp
next
  case (Suc n)
  let ?subs = "filter (\<lambda>f. folder_parentId f = Some r \<and> keep f) fs"
  have "\<forall>sub \<in> set ?subs. collectSubtree n keep fs (folder_id sub) \<noteq> None"
  proof
    fix sub assume s: "sub \<in> set ?subs"
    then have "g r < g (folder_id sub)" using up by auto
    moreover have "g (folder_id sub) < B" using s bound by auto
    ultimately show "collectSubtree n keep fs (folder_id sub) \<noteq> None"
      using Suc.prems by (intro Suc.IH) auto
  qed
  then show ?case by (simp add: Let_def those_map_Some)
qed

lemma list_all2_pick:
  "list_all2 P xs ys \<Longrightarrow> x \<in> set xs \<Longrightarrow> \<exists>y \<in> set ys. P x y"
  by (induction rule: list_all2_induct) auto

lemma list_all2_pick_right:
  "list_all2 P xs ys \<Longrightarrow> y \<in> set ys \<Longrightarrow> \<exists>x \<in> set xs. P x y"
  by (induction rule: list_all2_induct) auto

text \<open>In the collected list every collected folder is followed by its kept children.\<close>

lemma collectSubtree_children_follow:
  "collectSubtree n keep fs r = Some ids \<Longrightarrow> p \<in> set ids \<Longrightarrow> c \<in> set fs \<Longrightarrow>
   folder_parentId c = Some p \<Longrightarrow> keep c \<Longrightarrow>
     \<exists>xs ys. ids = xs @ p # ys \<and> folder_id c \<in> set ys"
proof (induction n arbitrary: r ids)
  case 0
  then show ?case by simp
next
  case (Suc n)
  let ?subs = "filter (\<lambda>f. folder_parentId f = Some r \<and> keep f) fs"
  obtain subIds where
    la: "list_all2 (\<lambda>sub y. collectSubtree n keep fs (folder_id sub) = Some y) ?subs subIds"
    and ids: "ids = r # concat subIds"
    using Suc.prems(1) by (elim collectSubtree_Some) auto
  show ?case
  proof (cases "p = r")
    case True
    then have "c \<in> set ?subs" using Suc.prems by simp
    then obtain y where y: "y \<in> set subIds" and cy: "collectSubtree n keep fs (folder_id c) = Some y"
      using list_all2_pick[OF la] by blast
    have "folder_id c \<in> set y" using collectSubtree_head[OF cy] by auto
    then have "folder_id c \<in> set (concat subIds)" using y by auto
    then show ?thesis using ids True by blast
  next
    case False
    then have "p \<in> set (concat subIds)" using Suc.prems(2) ids by simp
    then obtain y where y: "y \<in> set subIds" and py: "p \<in> set y" by auto
    obtain sub :: folder_row where sub: "collectSubtree n keep fs (folder_id sub) = Some y"
      using list_all2_pick_right[OF la y] by blast
    obtain xs ys where sp: "y = xs @ p # ys" and cin: "folder_id c \<in> set ys"
      using Suc.IH[OF sub py Suc.prems(3,4,5)] by blast
    obtain pre post where cc: "subIds = pre @ y # post" using y by (auto simp: in_set_conv_decomp)
    have "ids = (r # concat pre @ xs) @ p # (ys @ concat post)"
      by (simp add: ids cc sp)
    moreover have "folder_id c \<in> set (ys @ concat post)" using cin by simp
    ultimately show ?thesis by blast
  qed
qed

lemma collectSubtree_complete:
  assumes c: "collectSubtree n keep fs r = Some ids"
  shows "subtreeOf keep fs r x \<Longrightarrow> x \<in> set ids"
proof (induction rule: subtreeOf.induct)
  case root
  then show ?case using collectSubtree_head[OF c] by auto
next
  case (child p ch)
  then show ?case using collectSubtree_children_follow[OF c, of p ch] by auto
qed

lemma fold_setFolderDeletedAt:
  "fold (setFolderDeletedAt v) ids fs =
     map (\<lambda>f. if folder_id f \<in> set ids then f\<lparr>folder_deletedAt := v\<rparr> else f) fs"
proof (induction ids arbitrary: fs)
  case Nil
  then show ?case by simp
next
  case (Cons i ids)
  have "fold (setFolderDeletedAt v) (i # ids) fs
          = map (\<lambda>f. if folder_id f \<in> set ids then f\<lparr>folder_deletedAt := v\<rparr> else f)
              (setFolderDeletedAt v i fs)"
    by (simp add: Cons.IH)
  also have "\<dots> = map (\<lambda>f. if folder_id f \<in> set (i # ids) then f\<lparr>folder_deletedAt := v\<rparr> else f) fs"
    by (auto simp: setFolderDeletedAt_def)
  finally show ?case .
qed



lemma subtreeOf_trans:
  "subtreeOf keep fs a b \<Longrightarrow> subtreeOf keep fs r a \<Longrightarrow> subtreeOf keep fs r b"
proof (induction rule: subtreeOf.induct)
  case root
  then show ?case .
next
  case (child p c)
  then show ?case by (intro subtreeOf.child) auto
qed

lemma collectSubtree_sound:
  "collectSubtree n keep fs r = Some ids \<Longrightarrow> x \<in> set ids \<Longrightarrow> subtreeOf keep fs r x"
proof (induction n arbitrary: r ids x)
  case 0
  then show ?case by simp
next
  case (Suc n)
  let ?subs = "filter (\<lambda>f. folder_parentId f = Some r \<and> keep f) fs"
  obtain subIds where
    la: "list_all2 (\<lambda>sub y. collectSubtree n keep fs (folder_id sub) = Some y) ?subs subIds"
    and ids: "ids = r # concat subIds"
    using Suc.prems(1) by (elim collectSubtree_Some) auto
  show ?case
  proof (cases "x = r")
    case True
    then show ?thesis by (simp add: subtreeOf.root)
  next
    case False
    then obtain y where y: "y \<in> set subIds" and xy: "x \<in> set y"
      using Suc.prems(2) ids by auto
    obtain sub where sin: "sub \<in> set ?subs"
      and sub: "collectSubtree n keep fs (folder_id sub) = Some y"
      using list_all2_pick_right[OF la y] by blast
    have "subtreeOf keep fs (folder_id sub) x" using Suc.IH[OF sub xy] .
    moreover have "subtreeOf keep fs r (folder_id sub)"
      using sin by (intro subtreeOf.child[OF subtreeOf.root]) auto
    ultimately show ?thesis by (rule subtreeOf_trans)
  qed
qed

lemma collectSubtree_set:
  "collectSubtree n keep fs r = Some ids \<Longrightarrow> set ids = {x. subtreeOf keep fs r x}"
  using collectSubtree_sound collectSubtree_complete by blast

section \<open>Restoring a folder\<close>

lemma find_none_other:
  assumes d: "distinct (map key xs)" and a: "a \<in> set xs" and na: "\<not> P a"
    and k: "\<forall>x. P x \<longrightarrow> key x = key a"
  shows "find P xs = None"
proof -
  have "\<not> P x" if "x \<in> set xs" for x
  proof
    assume "P x"
    then have "key x = key a" using k by blast
    then have "x = a" using d that a by (metis distinct_key_eq)
    then show False using na \<open>P x\<close> by simp
  qed
  then show ?thesis by (simp add: find_None_iff)
qed

lemma trashedOf_eq:
  "(\<lambda>f. folder_userId f = u \<and> folder_deletedAt f \<noteq> None) = trashedOf u"
  by (rule ext) (simp add: trashedOf_def)

lemma restore_found:
  assumes pk: "distinct (map folder_id (folders s))"
    and fin: "frow \<in> set (folders s)" and fid: "folder_id frow = R"
    and own: "folder_userId frow = u" and tr: "folder_deletedAt frow \<noteq> None"
  shows "find (\<lambda>f. folder_id f = R \<and> folder_userId f = u \<and> folder_deletedAt f \<noteq> None) (folders s)
              = Some frow"
  using pk fin fid own tr by (intro find_unique[where key = folder_id]) simp_all

lemma restore_blocked:
  assumes pk: "distinct (map folder_id (folders s))"
    and ff: "find (\<lambda>f. folder_id f = R \<and> folder_userId f = u \<and> folder_deletedAt f \<noteq> None) (folders s)
              = Some frow"
    and pin: "prow \<in> set (folders s)"
    and pp: "folder_parentId frow = Some (folder_id prow)" and pt: "folder_deletedAt prow \<noteq> None"
  shows "restoreFolderFromTrash fuel u R s = Some (Inl PRECONDITION_FAILED, s)"
proof -
  have "(case find (\<lambda>f. folder_id f = folder_id prow \<and> folder_userId f = u) (folders s) of
             None \<Rightarrow> True | Some parentFolder \<Rightarrow> folder_deletedAt parentFolder \<noteq> None)"
  proof (cases "folder_userId prow = u")
    case True
    have "find (\<lambda>f. folder_id f = folder_id prow \<and> folder_userId f = u) (folders s) = Some prow"
      using pk pin True by (intro find_unique[where key = folder_id]) simp_all
    then show ?thesis using pt by simp
  next
    case False
    have "find (\<lambda>f. folder_id f = folder_id prow \<and> folder_userId f = u) (folders s) = None"
      using pk pin False by (intro find_none_other[where key = folder_id and a = prow]) simp_all
    then show ?thesis by simp
  qed
  then show ?thesis
    using ff pp by (simp add: restoreFolderFromTrash_def Let_def)
qed

lemma restore_run:
  assumes pk: "distinct (map folder_id (folders s))"
    and ff: "find (\<lambda>f. folder_id f = R \<and> folder_userId f = u \<and> folder_deletedAt f \<noteq> None) (folders s)
              = Some frow"
    and par: "folder_parentId frow = None
              \<or> (\<exists>prow \<in> set (folders s). folder_parentId frow = Some (folder_id prow)
                    \<and> folder_userId prow = u \<and> folder_deletedAt prow = None)"
    and c: "collectSubtree fuel (trashedOf u) (folders s) R = Some ids"
  shows "restoreFolderFromTrash fuel u R s = Some (Inr (length ids), restored u ids s)"
proof -
  have c': "collectTrashedFolderIds fuel (folders s) u R = Some ids"
    unfolding collectTrashedFolderIds_def trashedOf_eq by (rule c)
  show ?thesis
  proof (cases "folder_parentId frow")
    case None
    show ?thesis
      using ff None c' by (simp add: restoreFolderFromTrash_def Let_def restored_def)
  next
    case (Some pid)
    then obtain prow where pin: "prow \<in> set (folders s)" and pi: "pid = folder_id prow"
      and po: "folder_userId prow = u" and pa: "folder_deletedAt prow = None"
      using par by auto
    have fp: "find (\<lambda>f. folder_id f = pid \<and> folder_userId f = u) (folders s) = Some prow"
      unfolding pi using pk pin po by (intro find_unique[where key = folder_id]) simp_all
    show ?thesis
      using ff Some c' fp pa by (simp add: restoreFolderFromTrash_def Let_def restored_def)
  qed
qed

lemma inFolders_set:
  "set ids = S \<Longrightarrow> inFolders ids a = (\<exists>x. asset_folderId a = Some x \<and> x \<in> S)"
  by (auto simp: inFolders_def split: option.splits)

lemma restored_exact:
  assumes c: "collectSubtree fuel (trashedOf u) (folders s) R = Some ids"
  shows "restored u ids s =
     s\<lparr>userAssets :=
         map (\<lambda>a. if asset_userId a = u \<and> asset_deletedAt a \<noteq> None
                     \<and> (\<exists>x. asset_folderId a = Some x
                            \<and> subtreeOf (trashedOf u) (folders s) R x)
                   then a\<lparr>asset_deletedAt := None\<rparr> else a)
           (userAssets s),
       folders :=
         map (\<lambda>f. if subtreeOf (trashedOf u) (folders s) R (folder_id f)
                   then f\<lparr>folder_deletedAt := None\<rparr> else f)
           (folders s)\<rparr>"
proof -
  note st = collectSubtree_set[OF c]
  have f: "fold (setFolderDeletedAt None) ids (folders s) =
         map (\<lambda>f. if subtreeOf (trashedOf u) (folders s) R (folder_id f)
                   then f\<lparr>folder_deletedAt := None\<rparr> else f) (folders s)"
    unfolding fold_setFolderDeletedAt st by simp
  have a: "\<And>a. inFolders ids a
         = (\<exists>x. asset_folderId a = Some x \<and> subtreeOf (trashedOf u) (folders s) R x)"
    using inFolders_set[OF st] by simp
  show ?thesis unfolding restored_def f a by (rule refl)
qed

lemma subtree_rows_trashed:
  assumes pk: "distinct (map folder_id fs)"
    and fin: "frow \<in> set fs" and fid: "folder_id frow = R" and tr: "folder_deletedAt frow \<noteq> None"
    and st: "subtreeOf (trashedOf u) fs R x"
    and row: "row \<in> set fs" and rid: "folder_id row = x"
  shows "folder_deletedAt row \<noteq> None"
  using st
proof (cases rule: subtreeOf.cases)
  case root
  then have "row = frow" using pk fin row fid rid by (metis distinct_key_eq)
  then show ?thesis using tr by simp
next
  case (child p c)
  then have "row = c" using pk row rid by (metis distinct_key_eq)
  then show ?thesis using child by (simp add: trashedOf_def)
qed

lemma below_active_not_reached:
  assumes pk: "distinct (map folder_id fs)"
    and fin: "frow \<in> set fs" and fid: "folder_id frow = R" and tr: "folder_deletedAt frow \<noteq> None"
    and f: "f \<in> set fs" and ne: "folder_id f \<noteq> R"
    and p: "prow \<in> set fs" and fp: "folder_parentId f = Some (folder_id prow)"
    and act: "folder_deletedAt prow = None"
  shows "\<not> subtreeOf (trashedOf u) fs R (folder_id f)"
proof
  assume "subtreeOf (trashedOf u) fs R (folder_id f)"
  then show False
  proof (cases rule: subtreeOf.cases)
    case root
    then show ?thesis using ne by simp
  next
    case (child q c)
    then have "c = f" using pk f by (metis distinct_key_eq)
    then have "q = folder_id prow" using child fp by simp
    then have "subtreeOf (trashedOf u) fs R (folder_id prow)" using child by simp
    then have "folder_deletedAt prow \<noteq> None"
      using subtree_rows_trashed[OF pk fin fid tr _ p refl] by blast
    then show ?thesis using act by simp
  qed
qed

lemma find_by_id_map:
  assumes pk: "distinct (map folder_id fs)" and f: "f \<in> set fs"
    and ids: "\<And>x. folder_id (G x) = folder_id x" and same: "G f = f"
  shows "find (\<lambda>x. folder_id x = folder_id f) (map G fs) = Some f"
proof -
  have "find (\<lambda>x. folder_id x = folder_id f) fs = Some f"
    using pk f by (intro find_unique[where key = folder_id]) simp_all
  moreover have "find (\<lambda>x. folder_id x = folder_id f) (map G fs)
          = map_option G (find (\<lambda>x. folder_id x = folder_id f) fs)"
    by (rule find_map_stable) (simp add: ids)
  ultimately show ?thesis using same by simp
qed

text \<open>
  C6, as the code has it. \<open>frow\<close> is a trashed folder of the user (folder identifiers are
  a primary key). When its parent row is trashed, \<^verbatim>\<open>restoreFolderFromTrash\<close> fails with
  \<^verbatim>\<open>PRECONDITION_FAILED\<close> and leaves the state as it was. When it has no parent, or its
  parent is an active folder of the user, and the parent links are acyclic (a depth \<open>g\<close>
  grows from parent to child and stays below the bound of the recursion), the restore
  succeeds, and the state after it is the state before it with \<^verbatim>\<open>deletedAt\<close> cleared on
  exactly the folders reached from the folder through trashed folders of the user
  (\<open>subtreeOf\<close>) and on exactly the trashed assets of the user in those folders; every
  other row and every other table is as it was. In particular every folder other than the
  restored one whose parent row is active keeps its row, trashed or not.
\<close>

theorem restore_folder_cascade:
  fixes g :: "string \<Rightarrow> nat"
  assumes pk: "distinct (map folder_id (folders s))"
    and fin: "frow \<in> set (folders s)" and fid: "folder_id frow = R"
    and own: "folder_userId frow = u" and tr: "folder_deletedAt frow \<noteq> None"
  shows "(\<forall>prow \<in> set (folders s).
            folder_parentId frow = Some (folder_id prow) \<and> folder_deletedAt prow \<noteq> None \<longrightarrow>
              restoreFolderFromTrash fuel u R s = Some (Inl PRECONDITION_FAILED, s))
       \<and> ((folder_parentId frow = None
              \<or> (\<exists>prow \<in> set (folders s). folder_parentId frow = Some (folder_id prow)
                    \<and> folder_userId prow = u \<and> folder_deletedAt prow = None))
            \<and> (\<forall>f \<in> set (folders s). \<forall>p. folder_parentId f = Some p \<longrightarrow> g p < g (folder_id f))
            \<and> (\<forall>f \<in> set (folders s). g (folder_id f) < fuel)
          \<longrightarrow> (\<exists>n s'. restoreFolderFromTrash fuel u R s = Some (Inr n, s')
                 \<and> s' = s\<lparr>userAssets :=
                            map (\<lambda>a. if asset_userId a = u \<and> asset_deletedAt a \<noteq> None
                                        \<and> (\<exists>x. asset_folderId a = Some x
                                               \<and> subtreeOf (trashedOf u) (folders s) R x)
                                      then a\<lparr>asset_deletedAt := None\<rparr> else a)
                              (userAssets s),
                          folders :=
                            map (\<lambda>f. if subtreeOf (trashedOf u) (folders s) R (folder_id f)
                                      then f\<lparr>folder_deletedAt := None\<rparr> else f)
                              (folders s)\<rparr>
                 \<and> (\<forall>f \<in> set (folders s). \<forall>prow \<in> set (folders s).
                       folder_id f \<noteq> R \<and> folder_parentId f = Some (folder_id prow)
                         \<and> folder_deletedAt prow = None
                       \<longrightarrow> find (\<lambda>x. folder_id x = folder_id f) (folders s') = Some f)))"
proof -
  note ff = restore_found[OF pk fin fid own tr]
  have blocked: "\<forall>prow \<in> set (folders s).
            folder_parentId frow = Some (folder_id prow) \<and> folder_deletedAt prow \<noteq> None \<longrightarrow>
              restoreFolderFromTrash fuel u R s = Some (Inl PRECONDITION_FAILED, s)"
    using restore_blocked[OF pk ff] by blast
  let ?G = "\<lambda>f. if subtreeOf (trashedOf u) (folders s) R (folder_id f)
                then f\<lparr>folder_deletedAt := None\<rparr> else f"
  let ?s' = "s\<lparr>userAssets :=
                 map (\<lambda>a. if asset_userId a = u \<and> asset_deletedAt a \<noteq> None
                             \<and> (\<exists>x. asset_folderId a = Some x
                                    \<and> subtreeOf (trashedOf u) (folders s) R x)
                           then a\<lparr>asset_deletedAt := None\<rparr> else a)
                   (userAssets s),
               folders := map ?G (folders s)\<rparr>"
  have kept: "\<forall>f \<in> set (folders s). \<forall>prow \<in> set (folders s).
                folder_id f \<noteq> R \<and> folder_parentId f = Some (folder_id prow)
                  \<and> folder_deletedAt prow = None
                \<longrightarrow> find (\<lambda>x. folder_id x = folder_id f) (folders ?s') = Some f"
  proof (intro ballI impI)
    fix f prow
    assume f: "f \<in> set (folders s)" and p: "prow \<in> set (folders s)"
      and h: "folder_id f \<noteq> R \<and> folder_parentId f = Some (folder_id prow)
                  \<and> folder_deletedAt prow = None"
    have "\<not> subtreeOf (trashedOf u) (folders s) R (folder_id f)"
      using below_active_not_reached[OF pk fin fid tr f _ p] h by blast
    then have same: "?G f = f" by simp
    have "find (\<lambda>x. folder_id x = folder_id f) (map ?G (folders s)) = Some f"
      using pk f _ same by (rule find_by_id_map) simp
    then show "find (\<lambda>x. folder_id x = folder_id f) (folders ?s') = Some f" by simp
  qed
  have cascade: "\<exists>n s'. restoreFolderFromTrash fuel u R s = Some (Inr n, s') \<and> s' = ?s'
                 \<and> (\<forall>f \<in> set (folders s). \<forall>prow \<in> set (folders s).
                       folder_id f \<noteq> R \<and> folder_parentId f = Some (folder_id prow)
                         \<and> folder_deletedAt prow = None
                       \<longrightarrow> find (\<lambda>x. folder_id x = folder_id f) (folders s') = Some f)"
    if par: "folder_parentId frow = None
              \<or> (\<exists>prow \<in> set (folders s). folder_parentId frow = Some (folder_id prow)
                    \<and> folder_userId prow = u \<and> folder_deletedAt prow = None)"
      and up: "\<forall>f \<in> set (folders s). \<forall>p. folder_parentId f = Some p \<longrightarrow> g p < g (folder_id f)"
      and bound: "\<forall>f \<in> set (folders s). g (folder_id f) < fuel"
  proof -
    have gR: "g R < fuel" using bound fin fid by blast
    have "collectSubtree fuel (trashedOf u) (folders s) R \<noteq> None"
      using up bound gR by (rule collectSubtree_terminates) simp
    then obtain ids where c: "collectSubtree fuel (trashedOf u) (folders s) R = Some ids" by blast
    have run: "restoreFolderFromTrash fuel u R s = Some (Inr (length ids), ?s')"
      using restore_run[OF pk ff par c] unfolding restored_exact[OF c] .
    show ?thesis using run kept by blast
  qed
  show ?thesis using blocked cascade by blast
qed

lemma trashStore_folders:
  "distinct (map folder_id (folders trashStore))"
  "rowR \<in> set (folders trashStore)" "rowA' \<in> set (folders trashStore)"
  "rowA1 \<in> set (folders trashStore)"
  "\<forall>f \<in> set (folders trashStore). \<forall>p. folder_parentId f = Some p \<longrightarrow>
      trashDepth p < trashDepth (folder_id f)"
  "\<forall>f \<in> set (folders trashStore). trashDepth (folder_id f) < 4"
  by (simp_all add: trash_defs trashDepth_def)

text \<open>
  C6 in the example states. In \<open>trashStore\<close>, \<open>folderA\<close> cannot be restored while its
  parent \<open>folderR\<close> is trashed, and restoring \<open>folderR\<close> restores \<open>folderA1\<close> and the
  asset in it. In \<open>gapStore\<close>, restoring \<open>folderU\<close> leaves the row of \<open>folderW\<close>, whose
  parent \<open>folderV\<close> is active, as it was.
\<close>

theorem restore_folder_cascade_witness:
  "restoreFolderFromTrash 4 ''alice'' folderA trashStore = Some (Inl PRECONDITION_FAILED, trashStore)
   \<and> (\<exists>n s'. restoreFolderFromTrash 4 ''alice'' folderR trashStore = Some (Inr n, s')
         \<and> rowA1\<lparr>folder_deletedAt := None\<rparr> \<in> set (folders s')
         \<and> rowZ\<lparr>asset_deletedAt := None\<rparr> \<in> set (userAssets s'))
   \<and> (\<exists>n s'. restoreFolderFromTrash 3 ''alice'' folderU gapStore = Some (Inr n, s')
         \<and> find (\<lambda>x. folder_id x = folderW) (folders s')
             = Some \<lparr>folder_id = folderW, folder_name = ''w'', folder_userId = ''alice'',
                     folder_parentId = Some folderV, folder_deletedAt = Some 2\<rparr>)"
proof -
  have a: "folder_id rowA' = folderA" "folder_userId rowA' = ''alice''"
    "folder_deletedAt rowA' \<noteq> None" "folder_parentId rowA' = Some (folder_id rowR)"
    "folder_deletedAt rowR \<noteq> None"
    by (simp_all add: rowA'_def rowR_def)
  have r: "folder_id rowR = folderR" "folder_userId rowR = ''alice''"
    "folder_deletedAt rowR \<noteq> None" "folder_parentId rowR = None"
    by (simp_all add: rowR_def)
  have blocked: "restoreFolderFromTrash 4 ''alice'' folderA trashStore
                   = Some (Inl PRECONDITION_FAILED, trashStore)"
    using restore_folder_cascade [OF trashStore_folders(1,3) a(1,2,3), of 4 trashDepth]
      trashStore_folders(2) a(4,5)
    by blast
  have sa: "subtreeOf (trashedOf ''alice'') (folders trashStore) folderR (folder_id rowA')"
    by (rule subtreeOf.child[OF subtreeOf.root trashStore_folders(3)])
      (simp_all add: rowA'_def trashedOf_def)
  have sa1: "subtreeOf (trashedOf ''alice'') (folders trashStore) folderR (folder_id rowA1)"
    by (rule subtreeOf.child[OF sa trashStore_folders(4)])
      (simp_all add: rowA'_def rowA1_def trashedOf_def)
  have z: "rowZ \<in> set (userAssets trashStore)" "asset_userId rowZ = ''alice''"
    "asset_folderId rowZ = Some (folder_id rowA1)" "asset_deletedAt rowZ \<noteq> None"
    by (simp_all add: trashStore_def rowZ_def rowA1_def)
  obtain n s1 where run: "restoreFolderFromTrash 4 ''alice'' folderR trashStore = Some (Inr n, s1)"
    and s1: "s1 = trashStore\<lparr>userAssets :=
                 map (\<lambda>a. if asset_userId a = ''alice'' \<and> asset_deletedAt a \<noteq> None
                             \<and> (\<exists>x. asset_folderId a = Some x
                                    \<and> subtreeOf (trashedOf ''alice'') (folders trashStore) folderR x)
                           then a\<lparr>asset_deletedAt := None\<rparr> else a)
                   (userAssets trashStore),
               folders :=
                 map (\<lambda>f. if subtreeOf (trashedOf ''alice'') (folders trashStore) folderR (folder_id f)
                           then f\<lparr>folder_deletedAt := None\<rparr> else f)
                   (folders trashStore)\<rparr>"
    using restore_folder_cascade [OF trashStore_folders(1,2) r(1,2,3), of 4 trashDepth]
      r(4) trashStore_folders(5,6)
    by blast
  have f1: "rowA1\<lparr>folder_deletedAt := None\<rparr> \<in> set (folders s1)"
    unfolding s1 using sa1 trashStore_folders(4) by (simp add: image_iff) force
  have f2: "rowZ\<lparr>asset_deletedAt := None\<rparr> \<in> set (userAssets s1)"
    unfolding s1 using sa1 z by (simp add: image_iff) force
  have cascade: "\<exists>n s'. restoreFolderFromTrash 4 ''alice'' folderR trashStore = Some (Inr n, s')
         \<and> rowA1\<lparr>folder_deletedAt := None\<rparr> \<in> set (folders s')
         \<and> rowZ\<lparr>asset_deletedAt := None\<rparr> \<in> set (userAssets s')"
    using run f1 f2 by blast
  define rowU where "rowU = \<lparr>folder_id = folderU, folder_name = ''u'', folder_userId = ''alice'',
          folder_parentId = None, folder_deletedAt = Some (1::int)\<rparr>"
  define rowV where "rowV = \<lparr>folder_id = folderV, folder_name = ''v'', folder_userId = ''alice'',
          folder_parentId = Some folderU, folder_deletedAt = (None :: int option)\<rparr>"
  define rowW where "rowW = \<lparr>folder_id = folderW, folder_name = ''w'', folder_userId = ''alice'',
          folder_parentId = Some folderV, folder_deletedAt = Some (2::int)\<rparr>"
  define gd where "gd = (\<lambda>x. if x = folderW then 2 else if x = folderV then 1 else (0::nat))"
  have gf: "folders gapStore = [rowU, rowV, rowW]"
    by (simp add: gapStore_def rowU_def rowV_def rowW_def)
  have gpk: "distinct (map folder_id (folders gapStore))"
    by (simp add: gf rowU_def rowV_def rowW_def folderU_def folderV_def folderW_def)
  have gin: "rowU \<in> set (folders gapStore)" "rowV \<in> set (folders gapStore)"
    "rowW \<in> set (folders gapStore)"
    by (simp_all add: gf)
  have gu: "folder_id rowU = folderU" "folder_userId rowU = ''alice''"
    "folder_deletedAt rowU \<noteq> None" "folder_parentId rowU = None"
    by (simp_all add: rowU_def)
  have gup: "\<forall>f \<in> set (folders gapStore). \<forall>p. folder_parentId f = Some p \<longrightarrow> gd p < gd (folder_id f)"
    by (simp add: gf rowU_def rowV_def rowW_def gd_def folderU_def folderV_def folderW_def)
  have gb: "\<forall>f \<in> set (folders gapStore). gd (folder_id f) < 3"
    by (simp add: gf rowU_def rowV_def rowW_def gd_def)
  have gw: "folder_id rowW \<noteq> folderU" "folder_parentId rowW = Some (folder_id rowV)"
    "folder_deletedAt rowV = None" "folder_id rowW = folderW"
    by (simp_all add: rowW_def rowV_def folderU_def folderW_def)
  have "\<exists>n s'. restoreFolderFromTrash 3 ''alice'' folderU gapStore = Some (Inr n, s')
         \<and> find (\<lambda>x. folder_id x = folder_id rowW) (folders s') = Some rowW"
    using restore_folder_cascade [OF gpk gin(1) gu(1,2,3), of 3 gd]
      gu(4) gup gb gin(2,3) gw(1,2,3)
    by blast
  then have gap: "\<exists>n s'. restoreFolderFromTrash 3 ''alice'' folderU gapStore = Some (Inr n, s')
         \<and> find (\<lambda>x. folder_id x = folderW) (folders s')
             = Some \<lparr>folder_id = folderW, folder_name = ''w'', folder_userId = ''alice'',
                     folder_parentId = Some folderV, folder_deletedAt = Some 2\<rparr>"
    unfolding gw(4) by (simp add: rowW_def)
  show ?thesis using blocked cascade gap by blast
qed

text \<open>
  C6 as stated fails. A trashed folder below an active one is not reached: \<open>folderW\<close> is a descendant of
  \<open>folderU\<close> and is trashed, and it is still trashed after \<open>folderU\<close> is restored.
\<close>

theorem restore_claim_counterexample:
  "descendantOf (folders gapStore) folderU folderW
   \<and> (\<exists>s'. restoreFolderFromTrash 3 ''alice'' folderU gapStore = Some (Inr 1, s')
         \<and> find (\<lambda>f. folder_id f = folderW) (folders s')
             = Some \<lparr>folder_id = folderW, folder_name = ''w'', folder_userId = ''alice'',
                     folder_parentId = Some folderV, folder_deletedAt = Some 2\<rparr>)"
proof -
  have v: "descendantOf (folders gapStore) folderU folderV"
    by (rule descendantOf.child, simp add: gap_defs, simp add: gap_defs)
  have "descendantOf (folders gapStore) folderU folderW"
    by (rule descendantOf.below[OF _ _ v], simp add: gap_defs, simp add: gap_defs)
  then show ?thesis
    by (simp add: gap_defs restoreFolderFromTrash_def collectTrashedFolderIds_def
        setFolderDeletedAt_def inFolders_def eval_nat_numeral Let_def)
qed

section \<open>The order of folder deletes\<close>















end
